theory Spec2Isabelle
  imports Main "HOL-Library.AList" "HOL-Library.Sublist" "HOL-Library.Word"
begin

section \<open>The breach checker of \<^verbatim>\<open>src/analyzer/breach.ts\<close>\<close>

text \<open>
  The module checks a password against the Have-I-Been-Pwned range API. Only the first
  five characters of the upper-case hexadecimal SHA-1 digest are sent; the bucket of
  suffixes that comes back is compared locally and kept in IndexedDB for 24 hours, and an
  in-memory LRU list of prefixes decides which IndexedDB records are dropped.

  The embedding follows the source function by function. What the module cannot decide
  itself (the hash function of the library, whether IndexedDB opens, what the network
  answers) is a field of the record \<open>env\<close>; what it changes outside its own
  objects (the IndexedDB object store, the clock, the requests that left the process) is
  the record \<open>world\<close>. A rejected promise is the left injection of a sum.
\<close>

subsection \<open>Interfaces and constants\<close>

record BreachResult =
  checked :: bool
  breached :: "bool option"
  count :: "nat option"
  offline :: "bool option"
  cached :: "bool option"

record BreachCheckOptions =
  allowNetwork :: "bool option"
  timeout :: "int option"

record CacheEntry =
  prefix :: string
  hashes :: "string list"
  timestamp :: int

record LRUNode =
  key :: string
  prev :: "nat option"
  "next" :: "nat option"

definition HIBP_API_URL :: string where
  "HIBP_API_URL = ''https://api.pwnedpasswords.com/range/''"

definition CACHE_TTL_MS :: int where
  "CACHE_TTL_MS = 24 * 60 * 60 * 1000"

definition MAX_CACHE_SIZE :: nat where
  "MAX_CACHE_SIZE = 1000"

definition RATE_LIMIT_MS :: int where
  "RATE_LIMIT_MS = 1000"

definition MAX_RETRIES :: nat where
  "MAX_RETRIES = 3"

definition INITIAL_BACKOFF_MS :: int where
  "INITIAL_BACKOFF_MS = 1000"

subsection \<open>The LRU cache: a map from keys to nodes of a doubly linked list\<close>

text \<open>
  The nodes are objects that the list and the map share, so they live in an explicit
  store \<open>nodes\<close> from references to nodes; \<open>fresh\<close> is the next unused
  reference. The JavaScript \<open>Map\<close> keeps insertion order and is an association
  list: \<open>AList.update\<close> replaces in place or appends, as \<open>Map.set\<close> does.
\<close>

record LRUCache =
  cache :: "(string \<times> nat) list"
  nodes :: "nat \<Rightarrow> LRUNode"
  fresh :: nat
  head :: "nat option"
  tail :: "nat option"
  maxSize :: nat

definition new_LRUCache :: "nat \<Rightarrow> LRUCache" where
  "new_LRUCache n =
     \<lparr>cache = [], nodes = (\<lambda>_. \<lparr>key = [], prev = None, next = None\<rparr>), fresh = 0,
      head = None, tail = None, maxSize = n\<rparr>"

definition set_prev :: "(nat \<Rightarrow> LRUNode) \<Rightarrow> nat \<Rightarrow> nat option \<Rightarrow> (nat \<Rightarrow> LRUNode)" where
  "set_prev h r v = h(r := (h r)\<lparr>prev := v\<rparr>)"

definition set_next :: "(nat \<Rightarrow> LRUNode) \<Rightarrow> nat \<Rightarrow> nat option \<Rightarrow> (nat \<Rightarrow> LRUNode)" where
  "set_next h r v = h(r := (h r)\<lparr>next := v\<rparr>)"

text \<open>\<open>moveToFront\<close>, statement by statement; every read goes to the current store.\<close>

definition moveToFront :: "LRUCache \<Rightarrow> nat \<Rightarrow> LRUCache" where
  "moveToFront s r =
     (if head s = Some r then s
      else
        let h0 = nodes s;
            h1 = (case prev (h0 r) of Some p \<Rightarrow> set_next h0 p (next (h0 r)) | None \<Rightarrow> h0);
            h2 = (case next (h1 r) of Some q \<Rightarrow> set_prev h1 q (prev (h1 r)) | None \<Rightarrow> h1);
            t = (if tail s = Some r then prev (h2 r) else tail s);
            h3 = set_prev h2 r None;
            h4 = set_next h3 r (head s);
            h5 = (case head s of Some f \<Rightarrow> set_prev h4 f (Some r) | None \<Rightarrow> h4)
        in s\<lparr>nodes := h5, head := Some r, tail := t\<rparr>)"

text \<open>
  \<open>evictLRU\<close> drops the tail node and starts \<open>removeFromDB(evicted.key)\<close> without
  awaiting it. The started call is returned as the second component; the caller runs it.
\<close>

definition evictLRU :: "LRUCache \<Rightarrow> LRUCache \<times> string option" where
  "evictLRU s =
     (case tail s of
        None \<Rightarrow> (s, None)
      | Some t \<Rightarrow>
          let evicted = nodes s t;
              s1 = s\<lparr>cache := AList.delete (key evicted) (cache s), tail := prev evicted\<rparr>;
              s2 = (case tail s1 of
                      Some p \<Rightarrow> s1\<lparr>nodes := set_next (nodes s1) p None\<rparr>
                    | None \<Rightarrow> s1\<lparr>head := None\<rparr>)
          in (s2, Some (key evicted)))"

definition access :: "LRUCache \<Rightarrow> string \<Rightarrow> LRUCache \<times> string option" where
  "access s k =
     (case map_of (cache s) k of
        None \<Rightarrow>
          let r = fresh s;
              h1 = (nodes s)(r := \<lparr>key = k, prev = None, next = head s\<rparr>);
              h2 = (case head s of Some f \<Rightarrow> set_prev h1 f (Some r) | None \<Rightarrow> h1);
              s1 = s\<lparr>nodes := h2, fresh := Suc r, head := Some r,
                     tail := (if tail s = None then Some r else tail s),
                     cache := AList.update k r (cache s)\<rparr>
          in if length (cache s1) > maxSize s1 then evictLRU s1 else (s1, None)
      | Some r \<Rightarrow> (moveToFront s r, None))"

text \<open>A history of touches, applied in order.\<close>

fun touch_all :: "LRUCache \<Rightarrow> string list \<Rightarrow> LRUCache" where
  "touch_all s [] = s"
| "touch_all s (k # ks) = touch_all (fst (access s k)) ks"

text \<open>The nodes met from a reference by following \<open>next\<close>.\<close>

inductive reach :: "(nat \<Rightarrow> LRUNode) \<Rightarrow> nat option \<Rightarrow> nat \<Rightarrow> bool" where
  reach_here: "reach h (Some r) r"
| reach_next: "reach h (next (h r)) x \<Longrightarrow> reach h (Some r) x"

text \<open>The same walk as a list, bounded by the number of keys of the map.\<close>

fun walk :: "(nat \<Rightarrow> LRUNode) \<Rightarrow> nat \<Rightarrow> nat option \<Rightarrow> nat list" where
  "walk h 0 p = []"
| "walk h (Suc n) None = []"
| "walk h (Suc n) (Some r) = r # walk h n (next (h r))"

definition lru_keys :: "LRUCache \<Rightarrow> string list" where
  "lru_keys s = map (\<lambda>r. key (nodes s r)) (walk (nodes s) (length (cache s)) (head s))"

text \<open>
  The distinct keys of a history, the most recently touched first: \<open>remdups\<close> keeps
  the last occurrence of every key.
\<close>

definition by_recency :: "string list \<Rightarrow> string list" where
  "by_recency ks = rev (remdups ks)"

text \<open>
  The list of references that a cache state stands for. \<open>dseg h p xs n\<close>: the nodes
  \<open>xs\<close> are linked in this order, the first one has \<open>prev = p\<close> and the last one
  has \<open>next = n\<close>.
\<close>

definition first_opt :: "nat list \<Rightarrow> nat option \<Rightarrow> nat option" where
  "first_opt xs n = (case xs of [] \<Rightarrow> n | y # _ \<Rightarrow> Some y)"

definition last_opt :: "nat option \<Rightarrow> nat list \<Rightarrow> nat option" where
  "last_opt p xs = (if xs = [] then p else Some (last xs))"

fun dseg :: "(nat \<Rightarrow> LRUNode) \<Rightarrow> nat option \<Rightarrow> nat list \<Rightarrow> nat option \<Rightarrow> bool" where
  "dseg h p [] n = True"
| "dseg h p (x # xs) n =
     (prev (h x) = p \<and> next (h x) = first_opt xs n \<and> dseg h (Some x) xs n)"

definition lru_rep :: "LRUCache \<Rightarrow> nat list \<Rightarrow> bool" where
  "lru_rep s xs \<longleftrightarrow>
     distinct xs \<and> inj_on (\<lambda>r. key (nodes s r)) (set xs) \<and>
     dseg (nodes s) None xs None \<and>
     head s = first_opt xs None \<and> tail s = last_opt None xs \<and>
     distinct (map fst (cache s)) \<and>
     set (cache s) = (\<lambda>r. (key (nodes s r), r)) ` set xs \<and>
     (\<forall>r\<in>set xs. r < fresh s)"

text \<open>What a touch does to the keys in recency order, and the key it evicts.\<close>

definition touch_keys :: "nat \<Rightarrow> string \<Rightarrow> string list \<Rightarrow> string list" where
  "touch_keys cap k ks =
     (if k \<in> set ks then k # remove1 k ks
      else if length ks + 1 > cap then butlast (k # ks) else k # ks)"

definition touch_evicts :: "nat \<Rightarrow> string \<Rightarrow> string list \<Rightarrow> string option" where
  "touch_evicts cap k ks =
     (if k \<notin> set ks \<and> length ks + 1 > cap then Some (last (k # ks)) else None)"

subsection \<open>The digest\<close>

text \<open>
  \<open>sha1\<close> and \<open>bytesToHex\<close> come from the library \<^verbatim>\<open>@noble/hashes\<close>. The hash
  is a parameter (\<open>sha1\<close> of \<open>env\<close>, below) that returns the bytes of the digest,
  twenty of them for SHA-1; \<open>bytesToHex\<close> writes each byte as two lower-case
  hexadecimal digits. \<open>toUpperCase\<close> is given on the ASCII letters, the only letters
  that \<open>bytesToHex\<close> writes.
\<close>

definition hex_digit :: "nat \<Rightarrow> char" where
  "hex_digit n = ''0123456789abcdef'' ! n"

definition bytesToHex :: "8 word list \<Rightarrow> string" where
  "bytesToHex bs = concat (map (\<lambda>b. [hex_digit (unat b div 16), hex_digit (unat b mod 16)]) bs)"

definition upper_char :: "char \<Rightarrow> char" where
  "upper_char c =
     (case map_of (zip ''abcdefghijklmnopqrstuvwxyz'' ''ABCDEFGHIJKLMNOPQRSTUVWXYZ'') c of
        Some u \<Rightarrow> u
      | None \<Rightarrow> c)"

definition toUpperCase :: "string \<Rightarrow> string" where
  "toUpperCase s = map upper_char s"

definition is_upper_hex :: "char \<Rightarrow> bool" where
  "is_upper_hex c \<longleftrightarrow> c \<in> set ''0123456789ABCDEF''"

text \<open>
  Reading the notation back, two digits to a byte. This is written from the hexadecimal
  notation, not from the source, to compare the digest with the bytes it stands for.
\<close>

definition hex_value :: "char \<Rightarrow> nat" where
  "hex_value c =
     (case map_of (zip ''0123456789ABCDEF'' [0, 1, 2, 3, 4, 5, 6, 7, 8, 9, 10, 11, 12, 13, 14, 15]) c of
        Some n \<Rightarrow> n
      | None \<Rightarrow> 0)"

fun from_hex :: "string \<Rightarrow> 8 word list" where
  "from_hex (a # b # cs) = word_of_nat (hex_value a * 16 + hex_value b) # from_hex cs"
| "from_hex _ = []"

subsection \<open>The environment and the world\<close>

text \<open>
  One call of \<open>openDB\<close> and the single transaction and request that follows it go one
  of four ways: the open is rejected (\<open>indexedDB\<close> undefined, or \<open>onerror\<close>);
  \<open>db.transaction\<close> throws; the request fails; or all succeed. \<open>idb_at env n\<close> says
  which, for the \<open>n\<close>-th open of the process. \<open>fetch_at env n req t\<close> is what the
  \<open>n\<close>-th call of \<open>fetch\<close> gives for request \<open>req\<close> under a timer of \<open>t\<close>
  milliseconds: a rejection (network failure, or \<open>AbortError\<close> when the timer fired
  first), or a response with a status and a body (\<open>None\<close>: reading the body failed).
\<close>

datatype idb_status = Unavailable | TxError | ReqError | Healthy

datatype fetch_outcome = NetworkError | Aborted | Response nat "string option"

datatype error = IDBError | AbortError | FetchError | HttpError nat | BodyError | FailedToFetch

record request =
  url :: string
  headers :: "(string \<times> string) list"

record env =
  sha1 :: "string \<Rightarrow> 8 word list"
  idb_at :: "nat \<Rightarrow> idb_status"
  fetch_defined :: bool
  fetch_at :: "nat \<Rightarrow> request \<Rightarrow> int \<Rightarrow> fetch_outcome"

record world =
  clock :: int
  store :: "string \<Rightarrow> CacheEntry option"
  opens :: nat
  open_failures :: nat
  sent :: "request list"

record BreachChecker =
  lruCache :: LRUCache
  lastRequestTime :: int
  dbReady :: bool

definition new_BreachChecker :: BreachChecker where
  "new_BreachChecker =
     \<lparr>lruCache = new_LRUCache MAX_CACHE_SIZE, lastRequestTime = 0, dbReady = False\<rparr>"

text \<open>A timer: the clock moves on by the delay (a negative delay counts as zero).\<close>

definition sleep :: "int \<Rightarrow> world \<Rightarrow> world" where
  "sleep ms w = w\<lparr>clock := clock w + max 0 ms\<rparr>"

subsection \<open>IndexedDB\<close>

text \<open>
  \<open>openDB\<close> of \<open>BreachChecker\<close> and of \<open>LRUCache\<close>: the promise is rejected when
  IndexedDB is not there (the first by its \<open>typeof\<close> test, the second when
  \<open>indexedDB.open\<close> throws in the executor). The status stands for the handle.
\<close>

definition openDB :: "env \<Rightarrow> world \<Rightarrow> idb_status \<times> world" where
  "openDB env w =
     (idb_at env (opens w),
      w\<lparr>opens := Suc (opens w),
        open_failures :=
          (if idb_at env (opens w) = Unavailable then Suc (open_failures w) else open_failures w)\<rparr>)"

definition initDB :: "env \<Rightarrow> BreachChecker \<Rightarrow> world \<Rightarrow> BreachChecker \<times> world" where
  "initDB env c w =
     (if dbReady c then (c, w)
      else case openDB env w of
             (Unavailable, w1) \<Rightarrow> (c, w1)
           | (_, w1) \<Rightarrow> (c\<lparr>dbReady := True\<rparr>, w1))"

text \<open>
  \<open>removeFromDB\<close> and \<open>setCacheEntry\<close> catch what \<open>openDB\<close> and
  \<open>db.transaction\<close> throw; a request that fails later is not observed (\<open>await\<close> of an
  \<open>IDBRequest\<close> does not wait for it), and nothing is written.
\<close>

definition removeFromDB :: "env \<Rightarrow> string \<Rightarrow> world \<Rightarrow> world" where
  "removeFromDB env pfx w =
     (case openDB env w of
        (Healthy, w1) \<Rightarrow> w1\<lparr>store := (store w1)(pfx := None)\<rparr>
      | (_, w1) \<Rightarrow> w1)"

definition setCacheEntry :: "env \<Rightarrow> CacheEntry \<Rightarrow> world \<Rightarrow> world" where
  "setCacheEntry env entry w =
     (case openDB env w of
        (Healthy, w1) \<Rightarrow> w1\<lparr>store := (store w1)(prefix entry \<mapsto> entry)\<rparr>
      | (_, w1) \<Rightarrow> w1)"

text \<open>
  \<open>getCacheEntry\<close> returns the promise of the request from inside its \<open>try\<close>
  without awaiting it: a failing request rejects the promise of \<open>getCacheEntry\<close>
  itself, past the \<open>catch\<close>.
\<close>

definition getCacheEntry :: "env \<Rightarrow> string \<Rightarrow> world \<Rightarrow> (error + CacheEntry option) \<times> world" where
  "getCacheEntry env pfx w =
     (case openDB env w of
        (Unavailable, w1) \<Rightarrow> (Inr None, w1)
      | (TxError, w1) \<Rightarrow> (Inr None, w1)
      | (ReqError, w1) \<Rightarrow> (Inl IDBError, w1)
      | (Healthy, w1) \<Rightarrow>
          (case store w1 pfx of
             None \<Rightarrow> (Inr None, w1)
           | Some entry \<Rightarrow>
               if clock w1 - timestamp entry > CACHE_TTL_MS
               then (Inr None, w1\<lparr>store := (store w1)(pfx := None)\<rparr>)
               else (Inr (Some entry), w1)))"

subsection \<open>The network\<close>

definition rateLimit :: "BreachChecker \<Rightarrow> world \<Rightarrow> BreachChecker \<times> world" where
  "rateLimit c w =
     (let now = clock w;
          timeSinceLastRequest = now - lastRequestTime c;
          w1 = (if timeSinceLastRequest < RATE_LIMIT_MS
                then sleep (RATE_LIMIT_MS - timeSinceLastRequest) w else w)
      in (c\<lparr>lastRequestTime := clock w1\<rparr>, w1))"

definition hibp_request :: "string \<Rightarrow> request" where
  "hibp_request pfx =
     \<lparr>url = HIBP_API_URL @ pfx, headers = [(''User-Agent'', ''password-kit'')]\<rparr>"

definition fetch :: "env \<Rightarrow> request \<Rightarrow> int \<Rightarrow> world \<Rightarrow> fetch_outcome \<times> world" where
  "fetch env req tmo w = (fetch_at env (length (sent w)) req tmo, w\<lparr>sent := sent w @ [req]\<rparr>)"

text \<open>The texts of a request that go over the wire: the URL, the header names and values.\<close>

definition request_texts :: "request \<Rightarrow> string list" where
  "request_texts r = url r # concat (map (\<lambda>(n, v). [n, v]) (headers r))"

definition response_ok :: "nat \<Rightarrow> bool" where
  "response_ok status \<longleftrightarrow> 200 \<le> status \<and> status \<le> 299"

fun split_on :: "char \<Rightarrow> string \<Rightarrow> string list" where
  "split_on c [] = [[]]"
| "split_on c (x # xs) =
     (if x = c then [] # split_on c xs
      else case split_on c xs of y # ys \<Rightarrow> (x # y) # ys | [] \<Rightarrow> [[x]])"

definition is_space :: "char \<Rightarrow> bool" where
  "is_space c \<longleftrightarrow> (of_char c :: nat) \<in> {9, 10, 11, 12, 13, 32, 160}"

definition trim :: "string \<Rightarrow> string" where
  "trim s = rev (dropWhile is_space (rev (dropWhile is_space s)))"

definition parse_hashes :: "string \<Rightarrow> string list" where
  "parse_hashes text =
     filter (\<lambda>h. h \<noteq> [])
       (map (\<lambda>line. case split_on CHR '':'' line of hash # _ \<Rightarrow> trim hash | [] \<Rightarrow> [])
          (split_on (CHR 0x0A) text))"

text \<open>
  One attempt of the loop of \<open>fetchFromHIBP\<close>, as the \<open>try\<close> block sees the
  outcome of \<open>fetch\<close>: the parsed bucket, a 429 (back off and \<open>continue\<close>), or a throw
  into the \<open>catch\<close> block.
\<close>

datatype attempt = Done "string list" | Throttled | Thrown error

definition attempt_of :: "fetch_outcome \<Rightarrow> attempt" where
  "attempt_of outcome =
     (case outcome of
        NetworkError \<Rightarrow> Thrown FetchError
      | Aborted \<Rightarrow> Thrown AbortError
      | Response status body \<Rightarrow>
          if \<not> response_ok status then (if status = 429 then Throttled else Thrown (HttpError status))
          else (case body of None \<Rightarrow> Thrown BodyError | Some text \<Rightarrow> Done (parse_hashes text)))"

definition backoff :: "nat \<Rightarrow> int" where
  "backoff attempt = INITIAL_BACKOFF_MS * 2 ^ attempt"

function fetch_loop ::
  "env \<Rightarrow> string \<Rightarrow> int \<Rightarrow> nat \<Rightarrow> error option \<Rightarrow> BreachChecker \<Rightarrow> world
     \<Rightarrow> (error + string list) \<times> BreachChecker \<times> world" where
  "fetch_loop env pfx tmo attempt lastError c w =
     (if attempt < MAX_RETRIES then
        (case rateLimit c w of (c1, w1) \<Rightarrow>
         case fetch env (hibp_request pfx) tmo w1 of (outcome, w2) \<Rightarrow>
         case attempt_of outcome of
           Done hs \<Rightarrow> (Inr hs, c1, w2)
         | Throttled \<Rightarrow> fetch_loop env pfx tmo (Suc attempt) lastError c1 (sleep (backoff attempt) w2)
         | Thrown e \<Rightarrow>
             if e = AbortError then (Inl e, c1, w2)
             else fetch_loop env pfx tmo (Suc attempt) (Some e) c1
                    (if attempt < MAX_RETRIES - 1 then sleep (backoff attempt) w2 else w2))
      else (Inl (case lastError of Some e \<Rightarrow> e | None \<Rightarrow> FailedToFetch), c, w))"
  by pat_completeness auto
termination
  by (relation "measure (\<lambda>(env, pfx, tmo, attempt, lastError, c, w). MAX_RETRIES - attempt)") auto

definition fetchFromHIBP ::
  "env \<Rightarrow> string \<Rightarrow> int \<Rightarrow> BreachChecker \<Rightarrow> world \<Rightarrow> (error + string list) \<times> BreachChecker \<times> world" where
  "fetchFromHIBP env pfx tmo c w = fetch_loop env pfx tmo 0 None c w"

subsection \<open>The orchestrator\<close>

text \<open>Lines 383 to 385 of \<open>checkPassword\<close>: the hash, and its two parts.\<close>

definition hex_digest :: "env \<Rightarrow> string \<Rightarrow> string" where
  "hex_digest env password = toUpperCase (bytesToHex (sha1 env password))"

definition digest :: "env \<Rightarrow> string \<Rightarrow> string \<times> string" where
  "digest env password = (let hash = hex_digest env password in (take 5 hash, drop 5 hash))"

definition verdict :: "bool \<Rightarrow> bool \<Rightarrow> BreachResult" where
  "verdict b from_cache =
     \<lparr>checked = True, breached = Some b, count = (if b then Some 1 else None),
      offline = None, cached = Some from_cache\<rparr>"

definition offline_result :: BreachResult where
  "offline_result =
     \<lparr>checked = False, breached = None, count = None, offline = Some True, cached = None\<rparr>"

definition error_result :: BreachResult where
  "error_result =
     \<lparr>checked = False, breached = None, count = None, offline = None, cached = None\<rparr>"

definition opt_allowNetwork :: "BreachCheckOptions option \<Rightarrow> bool" where
  "opt_allowNetwork options =
     (case options of None \<Rightarrow> True
      | Some opts \<Rightarrow> (case allowNetwork opts of None \<Rightarrow> True | Some b \<Rightarrow> b))"

definition opt_timeout :: "BreachCheckOptions option \<Rightarrow> int" where
  "opt_timeout options =
     (case options of None \<Rightarrow> 5000
      | Some opts \<Rightarrow> (case timeout opts of None \<Rightarrow> 5000 | Some t \<Rightarrow> t))"

text \<open>The inner \<open>try\<close> of \<open>checkPassword\<close>: fetch, write back, compare.\<close>

definition network_check ::
  "env \<Rightarrow> string \<Rightarrow> string \<Rightarrow> int \<Rightarrow> BreachChecker \<Rightarrow> world \<Rightarrow> BreachResult \<times> BreachChecker \<times> world" where
  "network_check env pfx sfx tmo c w =
     (case fetchFromHIBP env pfx tmo c w of
        (Inr hs, c1, w1) \<Rightarrow>
          (verdict (sfx \<in> set hs) False, c1,
           setCacheEntry env \<lparr>prefix = pfx, hashes = hs, timestamp = clock w1\<rparr> w1)
      | (Inl e, c1, w1) \<Rightarrow> (offline_result, c1, w1))"

text \<open>
  The outer \<open>try\<close> block of \<open>checkPassword\<close>; \<open>Inl\<close> is a throw out of it. The
  options are read before the block (\<open>opt_allowNetwork\<close>, \<open>opt_timeout\<close>): with
  \<open>None\<close> for \<open>undefined\<close>, at the top and in each field, reading them cannot throw.
\<close>

definition checkPassword_try ::
  "env \<Rightarrow> string \<Rightarrow> BreachCheckOptions option \<Rightarrow> BreachChecker \<Rightarrow> world
     \<Rightarrow> (error + BreachResult) \<times> BreachChecker \<times> world" where
  "checkPassword_try env password options c w =
     (case initDB env c w of (c1, w1) \<Rightarrow>
      case digest env password of (pfx, sfx) \<Rightarrow>
      case access (lruCache c1) pfx of (lru, evicted) \<Rightarrow>
         let c2 = c1\<lparr>lruCache := lru\<rparr>;
             w2 = (case evicted of Some k \<Rightarrow> removeFromDB env k w1 | None \<Rightarrow> w1)
         in case getCacheEntry env pfx w2 of
              (Inl e, w3) \<Rightarrow> (Inl e, c2, w3)
            | (Inr (Some entry), w3) \<Rightarrow> (Inr (verdict (sfx \<in> set (hashes entry)) True), c2, w3)
            | (Inr None, w3) \<Rightarrow>
                if \<not> opt_allowNetwork options then (Inr offline_result, c2, w3)
                else if \<not> fetch_defined env then (Inr offline_result, c2, w3)
                else (case network_check env pfx sfx (opt_timeout options) c2 w3 of
                        (r, c4, w4) \<Rightarrow> (Inr r, c4, w4)))"

definition checkPassword ::
  "env \<Rightarrow> string \<Rightarrow> BreachCheckOptions option \<Rightarrow> BreachChecker \<Rightarrow> world
     \<Rightarrow> (error + BreachResult) \<times> BreachChecker \<times> world" where
  "checkPassword env password options c w =
     (case checkPassword_try env password options c w of
        (Inl e, c1, w1) \<Rightarrow> (Inr error_result, c1, w1)
      | (Inr r, c1, w1) \<Rightarrow> (Inr r, c1, w1))"

text \<open>\<open>clearCache\<close>: the \<open>try\<close> block, then the function with its \<open>catch\<close>.\<close>

definition clearCache_try ::
  "env \<Rightarrow> BreachChecker \<Rightarrow> world \<Rightarrow> (error + unit) \<times> BreachChecker \<times> world" where
  "clearCache_try env c w =
     (case openDB env w of
        (Unavailable, w1) \<Rightarrow> (Inl IDBError, c, w1)
      | (TxError, w1) \<Rightarrow> (Inl IDBError, c, w1)
      | (ReqError, w1) \<Rightarrow> (Inr (), c\<lparr>lruCache := new_LRUCache MAX_CACHE_SIZE\<rparr>, w1)
      | (Healthy, w1) \<Rightarrow>
          (Inr (), c\<lparr>lruCache := new_LRUCache MAX_CACHE_SIZE\<rparr>, w1\<lparr>store := Map.empty\<rparr>))"

definition clearCache ::
  "env \<Rightarrow> BreachChecker \<Rightarrow> world \<Rightarrow> (error + unit) \<times> BreachChecker \<times> world" where
  "clearCache env c w =
     (case clearCache_try env c w of (_, c1, w1) \<Rightarrow> (Inr (), c1, w1))"

text \<open>
  What the lookup in the durable store gives in a call of \<open>checkPassword\<close>: the
  block up to \<open>getCacheEntry\<close>, lines 380 to 389.
\<close>

definition durable_lookup ::
  "env \<Rightarrow> string \<Rightarrow> BreachChecker \<Rightarrow> world \<Rightarrow> error + CacheEntry option" where
  "durable_lookup env password c w =
     (case initDB env c w of (c1, w1) \<Rightarrow>
      case digest env password of (pfx, sfx) \<Rightarrow>
      case access (lruCache c1) pfx of (lru, evicted) \<Rightarrow>
        fst (getCacheEntry env pfx
               (case evicted of Some k \<Rightarrow> removeFromDB env k w1 | None \<Rightarrow> w1)))"

text \<open>The store has no record for the prefix that is still within the TTL.\<close>

definition no_fresh_entry :: "world \<Rightarrow> string \<Rightarrow> bool" where
  "no_fresh_entry w pfx =
     (case store w pfx of None \<Rightarrow> True | Some e \<Rightarrow> clock w - timestamp e > CACHE_TTL_MS)"

text \<open>
  What a rejected \<open>openDB\<close> leaves behind, and the part of the state that the network
  code does not touch.
\<close>

definition failed_open :: "world \<Rightarrow> world" where
  "failed_open w = w\<lparr>opens := Suc (opens w), open_failures := Suc (open_failures w)\<rparr>"

definition same_idb :: "BreachChecker \<times> world \<Rightarrow> BreachChecker \<times> world \<Rightarrow> bool" where
  "same_idb s s' \<longleftrightarrow>
     dbReady (fst s') = dbReady (fst s) \<and> lruCache (fst s') = lruCache (fst s) \<and>
     store (snd s') = store (snd s) \<and> opens (snd s') = opens (snd s) \<and>
     open_failures (snd s') = open_failures (snd s)"

subsection \<open>Sample environments\<close>

text \<open>
  The SHA-1 digest of the password \<open>password\<close>, and environments in which every open
  of IndexedDB goes the same way and every \<open>fetch\<close> has the same outcome. Their hash
  function returns this digest for every password: it is SHA-1 on \<open>password\<close>, and
  it makes any other password one that shares the prefix with it.
\<close>

definition sha1_password :: "8 word list" where
  "sha1_password =
     [0x5B, 0xAA, 0x61, 0xE4, 0xC9, 0xB9, 0x3F, 0x3F, 0x06, 0x82,
      0x25, 0x0B, 0x6C, 0xF8, 0x33, 0x1B, 0x7E, 0xE6, 0x8F, 0xD8]"

definition env_const :: "idb_status \<Rightarrow> fetch_outcome \<Rightarrow> env" where
  "env_const st fo =
     \<lparr>sha1 = (\<lambda>_. sha1_password), idb_at = (\<lambda>_. st), fetch_defined = True,
      fetch_at = (\<lambda>_ _ _. fo)\<rparr>"

definition world0 :: world where
  "world0 = \<lparr>clock = 1763164800000, store = Map.empty, opens = 0, open_failures = 0, sent = []\<rparr>"

definition offline_opts :: "BreachCheckOptions option" where
  "offline_opts = Some \<lparr>allowNetwork = Some False, timeout = None\<rparr>"

text \<open>A store whose record for the prefix of \<open>password\<close> is one millisecond too old.\<close>

definition stale_world :: world where
  "stale_world =
     world0\<lparr>store := [''5BAA6'' \<mapsto>
        \<lparr>prefix = ''5BAA6'', hashes = [''1E4C9B93F3F0682250B6CF8331B7EE68FD8''],
         timestamp = clock world0 - (CACHE_TTL_MS + 1)\<rparr>]\<rparr>"

text \<open>A store whose record for that prefix is one hour old.\<close>

definition hour_old_world :: world where
  "hour_old_world =
     world0\<lparr>store := [''5BAA6'' \<mapsto>
        \<lparr>prefix = ''5BAA6'', hashes = [''1E4C9B93F3F0682250B6CF8331B7EE68FD8''],
         timestamp = clock world0 - 3600000\<rparr>]\<rparr>"

text \<open>
  The state after one cache-only check of \<open>password\<close> in a host without IndexedDB (Node,
  as in the test suite).
\<close>

definition degraded_state :: "BreachChecker \<times> world" where
  "degraded_state =
     snd (checkPassword (env_const Unavailable NetworkError) ''password'' offline_opts
            new_BreachChecker world0)"

abbreviation (input) keyf :: "LRUCache \<Rightarrow> nat \<Rightarrow> string" where
  "keyf s \<equiv> (\<lambda>r. key (nodes s r))"

section \<open>The LRU cache\<close>

subsection \<open>Linked segments\<close>

lemma first_opt_simps [simp]: "first_opt [] n = n" "first_opt (x # xs) n = Some x"
  by (simp_all add: first_opt_def)

lemma last_opt_simps [simp]: "last_opt p [] = p" "last_opt p (xs @ [x]) = Some x"
  "xs \<noteq> [] \<Longrightarrow> last_opt p xs = Some (last xs)"
  by (simp_all add: last_opt_def)

lemma first_opt_append: "first_opt (xs @ ys) n = first_opt xs (first_opt ys n)"
  by (cases xs) simp_all

lemma set_prev_apply [simp]:
  "set_prev h r v x = (if x = r then (h r)\<lparr>prev := v\<rparr> else h x)"
  by (simp add: set_prev_def)

lemma set_next_apply [simp]:
  "set_next h r v x = (if x = r then (h r)\<lparr>next := v\<rparr> else h x)"
  by (simp add: set_next_def)

lemma dseg_append:
  "dseg h p (xs @ ys) n \<longleftrightarrow> dseg h p xs (first_opt ys n) \<and> dseg h (last_opt p xs) ys n"
  by (induction xs arbitrary: p) (auto simp: first_opt_append last_opt_def)

lemma dseg_cong:
  "(\<And>x. x \<in> set xs \<Longrightarrow> prev (h' x) = prev (h x) \<and> next (h' x) = next (h x)) \<Longrightarrow>
   dseg h' p xs n = dseg h p xs n"
  by (induction xs arbitrary: p) auto

lemma dseg_set_last_next:
  "dseg h p xs n \<Longrightarrow> xs \<noteq> [] \<Longrightarrow> distinct xs \<Longrightarrow> dseg (set_next h (last xs) n') p xs n'"
proof (induction xs arbitrary: p)
  case Nil
  then show ?case by simp
next
  case (Cons x xs)
  show ?case
  proof (cases xs)
    case Nil
    with Cons.prems show ?thesis by simp
  next
    case (Cons y ys)
    with Cons.prems Cons.IH [of "Some x"] show ?thesis by auto
  qed
qed

lemma dseg_set_first_prev:
  "dseg h p xs n \<Longrightarrow> xs \<noteq> [] \<Longrightarrow> distinct xs \<Longrightarrow> dseg (set_prev h (hd xs) p') p' xs n"
proof (cases xs)
  case Nil
  assume "xs \<noteq> []" with Nil show ?thesis by simp
next
  case (Cons x ys)
  assume a: "dseg h p xs n" "distinct xs"
  have "dseg (set_prev h x p') (Some x) ys n = dseg h (Some x) ys n"
    using a Cons by (intro dseg_cong) auto
  with a Cons show ?thesis by simp
qed

lemma walk_dseg: "dseg h p xs None \<Longrightarrow> walk h n (first_opt xs None) = take n xs"
proof (induction xs arbitrary: p n)
  case Nil
  then show ?case by (cases n) simp_all
next
  case (Cons x xs)
  then show ?case by (cases n) auto
qed

lemma reach_dseg:
  assumes "dseg h p xs None"
  shows "reach h (first_opt xs None) r \<longleftrightarrow> r \<in> set xs"
  using assms
proof (induction xs arbitrary: p)
  case Nil
  show ?case by (auto elim: reach.cases)
next
  case (Cons x xs)
  from Cons.prems have nx: "next (h x) = first_opt xs None" and d: "dseg h (Some x) xs None"
    by simp_all
  have "reach h (Some x) r \<longleftrightarrow> r = x \<or> reach h (next (h x)) r"
    by (auto intro: reach.intros elim: reach.cases)
  with Cons.IH [OF d] nx show ?case by auto
qed

subsection \<open>The representation is kept by every operation\<close>

lemma rep_length: "lru_rep s xs \<Longrightarrow> length (cache s) = length xs"
proof -
  assume a: "lru_rep s xs"
  then have d: "distinct (cache s)" and dx: "distinct xs"
    and e: "set (cache s) = (\<lambda>r. (key (nodes s r), r)) ` set xs"
    by (auto simp: lru_rep_def distinct_map)
  have "inj_on (\<lambda>r. (key (nodes s r), r)) (set xs)" by (auto intro: inj_onI)
  then have "card (set (cache s)) = card (set xs)" using e by (simp add: card_image)
  with d dx show ?thesis by (simp add: distinct_card)
qed

lemma rep_map_of:
  "lru_rep s xs \<Longrightarrow> map_of (cache s) k = Some r \<longleftrightarrow> r \<in> set xs \<and> key (nodes s r) = k"
  by (auto simp: lru_rep_def)

lemma rep_map_of_None:
  "lru_rep s xs \<Longrightarrow> map_of (cache s) k = None \<longleftrightarrow> k \<notin> set (map (\<lambda>r. key (nodes s r)) xs)"
  by (auto simp: lru_rep_def map_of_eq_None_iff image_iff)

lemma rep_new: "lru_rep (new_LRUCache n) []"
  by (simp add: lru_rep_def new_LRUCache_def)

lemma update_fresh_key: "k \<notin> fst ` set al \<Longrightarrow> AList.update k v al = al @ [(k, v)]"
  by (induction al) auto

text \<open>The insertion of a new key, before the eviction.\<close>

lemma rep_insert:
  assumes rep: "lru_rep s xs" and miss: "map_of (cache s) k = None"
  defines "r \<equiv> fresh s"
  defines "h1 \<equiv> (nodes s)(r := \<lparr>key = k, prev = None, next = head s\<rparr>)"
  defines "h2 \<equiv> (case head s of Some f \<Rightarrow> set_prev h1 f (Some r) | None \<Rightarrow> h1)"
  defines "s1 \<equiv> s\<lparr>nodes := h2, fresh := Suc r, head := Some r,
                     tail := (if tail s = None then Some r else tail s),
                     cache := AList.update k r (cache s)\<rparr>"
  shows "lru_rep s1 (r # xs)"
    and "map (\<lambda>x. key (nodes s1 x)) (r # xs) = k # map (\<lambda>x. key (nodes s x)) xs"
proof -
  from rep have rx: "r \<notin> set xs" by (auto simp: lru_rep_def r_def)
  from rep have dx: "distinct xs" by (simp add: lru_rep_def)
  from rep have lt: "\<forall>x\<in>set xs. x < r" by (simp add: lru_rep_def r_def)
  from rep have hd: "head s = first_opt xs None" and tl: "tail s = last_opt None xs"
    by (simp_all add: lru_rep_def)
  from rep have seg: "dseg (nodes s) None xs None" by (simp add: lru_rep_def)
  have keys: "key (h2 x) = (if x = r then k else key (nodes s x))" for x
    by (auto simp: h2_def h1_def split: option.splits)
  have kfresh: "k \<notin> (\<lambda>r. key (nodes s r)) ` set xs"
    using rep_map_of_None [OF rep, of k] miss by simp
  then have kc: "k \<notin> fst ` set (cache s)"
    using rep by (auto simp: lru_rep_def image_iff)
  have seg1: "dseg h1 None xs None"
    using seg rx by (subst dseg_cong [where h = "nodes s"]) (auto simp: h1_def)
  have seg2: "dseg h2 (Some r) xs None"
  proof (cases xs)
    case Nil
    then show ?thesis by simp
  next
    case (Cons y ys)
    then have "h2 = set_prev h1 (hd xs) (Some r)" using hd by (simp add: h2_def)
    with dseg_set_first_prev [OF seg1 _ dx, of "Some r"] Cons show ?thesis by simp
  qed
  have r2: "prev (h2 r) = None \<and> next (h2 r) = first_opt xs None"
    using rx hd by (cases xs) (auto simp: h2_def h1_def)
  have inj: "inj_on (\<lambda>x. key (h2 x)) (set (r # xs))"
    using rep kfresh rx unfolding lru_rep_def inj_on_def keys by (auto simp: image_iff)
  have cset: "set (AList.update k r (cache s)) = (\<lambda>x. (key (h2 x), x)) ` set (r # xs)"
    using rep rx by (auto simp: update_fresh_key [OF kc] keys lru_rep_def)
  have cdist: "distinct (map fst (AList.update k r (cache s)))"
    using rep by (simp add: AList.distinct_update lru_rep_def)
  have tl1: "(if tail s = None then Some r else tail s) = last_opt None (r # xs)"
    using tl by (cases xs) (auto simp: last_opt_def)
  show "lru_rep s1 (r # xs)"
    unfolding lru_rep_def
    using rx dx inj seg2 r2 cset cdist tl1 lt
    by (auto simp: s1_def less_Suc_eq)
  show "map (\<lambda>x. key (nodes s1 x)) (r # xs) = k # map (\<lambda>x. key (nodes s x)) xs"
    using rx by (auto simp: s1_def keys)
qed

lemma delete_key_set:
  "set (AList.delete k al) = {p \<in> set al. fst p \<noteq> k}"
  by (auto simp: AList.delete_eq)

lemma repD:
  assumes "lru_rep s xs"
  shows "distinct xs" and "inj_on (\<lambda>r. key (nodes s r)) (set xs)"
    and "dseg (nodes s) None xs None" and "head s = first_opt xs None"
    and "tail s = last_opt None xs" and "distinct (map fst (cache s))"
    and "set (cache s) = (\<lambda>r. (key (nodes s r), r)) ` set xs"
    and "\<forall>r\<in>set xs. r < fresh s"
  using assms unfolding lru_rep_def by blast+

lemma rep_evict:
  assumes rep: "lru_rep s (as @ [t])"
  shows "lru_rep (fst (evictLRU s)) as"
    and "snd (evictLRU s) = Some (key (nodes s t))"
    and "map (\<lambda>x. key (nodes (fst (evictLRU s)) x)) as = map (\<lambda>x. key (nodes s x)) as"
    and "maxSize (fst (evictLRU s)) = maxSize s"
proof -
  let ?h = "nodes s"
  from rep have tl: "tail s = Some t" by (simp add: lru_rep_def)
  from rep have d: "distinct (as @ [t])" by (simp add: lru_rep_def)
  from rep have seg: "dseg ?h None as (Some t)" and pt: "prev (?h t) = last_opt None as"
    by (simp_all add: lru_rep_def dseg_append)
  note inj = repD(2) [OF rep]
  note cs = repD(7) [OF rep]
  have cs': "set (AList.delete (key (?h t)) (cache s)) = (\<lambda>r. (key (?h r), r)) ` set as"
  proof -
    have "key (?h x) \<noteq> key (?h t)" if "x \<in> set as" for x
    proof
      assume "key (?h x) = key (?h t)"
      from inj_onD [OF inj this] that have "x = t" by simp
      with d that show False by simp
    qed
    then show ?thesis unfolding delete_key_set cs by auto
  qed
  have cd: "distinct (map fst (AList.delete (key (?h t)) (cache s)))"
    using rep by (simp add: lru_rep_def AList.distinct_delete)
  show "snd (evictLRU s) = Some (key (nodes s t))"
    by (simp add: evictLRU_def tl Let_def)
  show "maxSize (fst (evictLRU s)) = maxSize s"
    by (simp add: evictLRU_def tl Let_def split: option.splits)
  show "lru_rep (fst (evictLRU s)) as"
  proof (cases "as = []")
    case True
    then show ?thesis
      using pt cs' cd by (simp add: evictLRU_def tl Let_def lru_rep_def)
  next
    case False
    then have pt': "prev (?h t) = Some (last as)" using pt by simp
    have seg': "dseg (set_next ?h (last as) None) None as None"
      using dseg_set_last_next [OF seg False, of None] d by simp
    have keys: "key (set_next ?h (last as) None x) = key (?h x)" for x by simp
    have "head s = first_opt as None" using rep False by (cases as) (simp_all add: lru_rep_def)
    moreover have "\<forall>r\<in>set as. r < fresh s" using rep by (simp add: lru_rep_def)
    moreover have "inj_on (\<lambda>r. key (?h r)) (set as)" by (rule inj_on_subset [OF inj]) auto
    ultimately show ?thesis
      using False pt' cs' cd seg' d
      by (simp add: evictLRU_def tl Let_def lru_rep_def keys del: set_next_apply)
  qed
  show "map (\<lambda>x. key (nodes (fst (evictLRU s)) x)) as = map (\<lambda>x. key (nodes s x)) as"
    by (simp add: evictLRU_def tl Let_def split: option.splits)
qed

lemma rep_moveToFront:
  assumes rep: "lru_rep s (as @ r # bs)"
  shows "lru_rep (moveToFront s r) (r # as @ bs)"
    and "key (nodes (moveToFront s r) x) = key (nodes s x)"
    and "maxSize (moveToFront s r) = maxSize s"
proof -
  let ?h = "nodes s"
  show k: "\<And>x. key (nodes (moveToFront s r) x) = key (nodes s x)"
    by (simp add: moveToFront_def Let_def split: option.splits)
  show "maxSize (moveToFront s r) = maxSize s"
    by (simp add: moveToFront_def Let_def)
  show "lru_rep (moveToFront s r) (r # as @ bs)"
  proof (cases "as = []")
    case True
    with rep have "head s = Some r" by (simp add: lru_rep_def)
    with rep True show ?thesis by (simp add: moveToFront_def)
  next
    case False
    note d = repD(1) [OF rep]
    then have ras: "r \<notin> set as" and rbs: "r \<notin> set bs" and das: "distinct as" and dbs: "distinct bs"
      and disj: "set as \<inter> set bs = {}" by auto
    from False have la: "last as \<in> set as" and ha: "hd as \<in> set as" by simp_all
    from rep False have hd: "head s = Some (hd as)" by (cases as) (simp_all add: lru_rep_def)
    then have hr: "head s \<noteq> Some r" using ras ha by auto
    from rep have tl: "tail s = Some (last (r # bs))" by (simp add: lru_rep_def last_opt_def)
    from rep False have segA: "dseg ?h None as (Some r)" and pr: "prev (?h r) = Some (last as)"
      and nr: "next (?h r) = first_opt bs None" and segB: "dseg ?h (Some r) bs None"
      by (simp_all add: lru_rep_def dseg_append)
    define h1 where "h1 = set_next ?h (last as) (first_opt bs None)"
    define h2 where "h2 = (case first_opt bs None of Some q \<Rightarrow> set_prev h1 q (Some (last as)) | None \<Rightarrow> h1)"
    define h3 where "h3 = set_prev h2 r None"
    define h4 where "h4 = set_next h3 r (Some (hd as))"
    define h5 where "h5 = set_prev h4 (hd as) (Some r)"
    have r1: "h1 r = ?h r" using ras la by (auto simp: h1_def)
    have r2: "h2 r = ?h r" using rbs r1 by (cases bs) (auto simp: h2_def)
    have e1: "(case prev (?h r) of Some p \<Rightarrow> set_next ?h p (next (?h r)) | None \<Rightarrow> ?h) = h1"
      by (simp add: pr nr h1_def del: set_next_apply)
    have e2: "(case next (h1 r) of Some q \<Rightarrow> set_prev h1 q (prev (h1 r)) | None \<Rightarrow> h1) = h2"
      by (simp add: r1 pr nr h2_def split: option.splits del: set_prev_apply)
    have e3: "(if tail s = Some r then prev (h2 r) else tail s) =
              (if bs = [] then Some (last as) else tail s)"
      using tl rbs r2 pr by (cases bs) (auto simp: last_opt_def)
    have e4: "(case head s of Some f \<Rightarrow> set_prev (set_next (set_prev h2 r None) r (head s)) f (Some r)
                | None \<Rightarrow> set_next (set_prev h2 r None) r (head s)) = h5"
      by (simp add: hd h5_def h4_def h3_def del: set_prev_apply set_next_apply)
    have mtf: "moveToFront s r = s\<lparr>nodes := h5, head := Some r,
                 tail := (if bs = [] then Some (last as) else tail s)\<rparr>"
      using hr by (simp only: moveToFront_def Let_def e1 e2 e3 e4 if_False)
    have A1: "dseg h1 None as (first_opt bs None)"
      unfolding h1_def by (rule dseg_set_last_next [OF segA False das])
    have B1: "dseg h1 (Some r) bs None"
      using segB la disj by (subst dseg_cong [where h = ?h]) (auto simp: h1_def)
    have A2: "dseg h2 None as (first_opt bs None)"
      using A1 disj by (cases bs) (auto simp: h2_def intro!: dseg_cong [where h = h1, THEN iffD2])
    have B2: "dseg h2 (Some (last as)) bs None"
    proof (cases bs)
      case Nil
      then show ?thesis by simp
    next
      case (Cons b bs')
      then have "h2 = set_prev h1 (hd bs) (Some (last as))" by (simp add: h2_def)
      with dseg_set_first_prev [OF B1 _ dbs, of "Some (last as)"] Cons show ?thesis by simp
    qed
    have A4: "dseg h4 None as (first_opt bs None)"
      using A2 ras by (subst dseg_cong [where h = h2]) (auto simp: h4_def h3_def)
    have B4: "dseg h4 (Some (last as)) bs None"
      using B2 rbs by (subst dseg_cong [where h = h2]) (auto simp: h4_def h3_def)
    have A5: "dseg h5 (Some r) as (first_opt bs None)"
      unfolding h5_def by (rule dseg_set_first_prev [OF A4 False das])
    have B5: "dseg h5 (Some (last as)) bs None"
      using B4 ha disj by (subst dseg_cong [where h = h4]) (auto simp: h5_def)
    have R5: "prev (h5 r) = None \<and> next (h5 r) = Some (hd as)"
      using ras ha by (auto simp: h5_def h4_def h3_def)
    have AB5: "dseg h5 (Some r) (as @ bs) None"
      using A5 B5 False by (simp add: dseg_append)
    have "first_opt (as @ bs) None = Some (hd as)"
      using False by (cases as) simp_all
    with AB5 R5 have seg5: "dseg h5 None (r # as @ bs) None"
      by simp
    have keys: "key (h5 x) = key (?h x)" for x
      using k [of x] by (simp add: mtf)
    have tl5: "(if bs = [] then Some (last as) else tail s) = last_opt None (r # as @ bs)"
      using tl False by (auto simp: last_opt_def)
    have st: "set (r # as @ bs) = set (as @ r # bs)" by auto
    have inj5: "inj_on (\<lambda>x. key (h5 x)) (set (r # as @ bs))"
      unfolding keys st by (rule repD(2) [OF rep])
    have c5: "set (cache s) = (\<lambda>x. (key (h5 x), x)) ` set (r # as @ bs)"
      unfolding keys st by (rule repD(7) [OF rep])
    have f5: "\<forall>x\<in>set (r # as @ bs). x < fresh s"
      unfolding st by (rule repD(8) [OF rep])
    have d5: "distinct (r # as @ bs)" using d by auto
    show ?thesis
      unfolding lru_rep_def mtf
      using seg5 d5 tl5 inj5 c5 f5 repD(6) [OF rep] by simp
  qed
qed

subsection \<open>A touch on the keys in recency order\<close>

lemma rep_access:
  assumes rep: "lru_rep s xs"
  shows "\<exists>ys. lru_rep (fst (access s k)) ys \<and>
           map (keyf (fst (access s k))) ys = touch_keys (maxSize s) k (map (keyf s) xs) \<and>
           maxSize (fst (access s k)) = maxSize s \<and>
           snd (access s k) = touch_evicts (maxSize s) k (map (keyf s) xs)"
proof (cases "map_of (cache s) k")
  case None
  define s1 where "s1 = s\<lparr>nodes := (case head s of Some f \<Rightarrow> set_prev ((nodes s)(fresh s := \<lparr>key = k, prev = None, next = head s\<rparr>)) f (Some (fresh s)) | None \<Rightarrow> (nodes s)(fresh s := \<lparr>key = k, prev = None, next = head s\<rparr>)),
      fresh := Suc (fresh s), head := Some (fresh s),
      tail := (if tail s = None then Some (fresh s) else tail s),
      cache := AList.update k (fresh s) (cache s)\<rparr>"
  have rep1: "lru_rep s1 (fresh s # xs)"
    unfolding s1_def by (rule rep_insert(1) [OF rep None])
  have keys1: "map (keyf s1) (fresh s # xs) = k # map (keyf s) xs"
    unfolding s1_def by (rule rep_insert(2) [OF rep None])
  have acc: "access s k = (if length (cache s1) > maxSize s1 then evictLRU s1 else (s1, None))"
    by (simp add: access_def None Let_def s1_def del: set_prev_apply)
  have len1: "length (cache s1) = Suc (length xs)" using rep_length [OF rep1] by simp
  have m1: "maxSize s1 = maxSize s" by (simp add: s1_def)
  have knew: "k \<notin> set (map (keyf s) xs)" using rep_map_of_None [OF rep] None by simp
  show ?thesis
  proof (cases "Suc (length xs) > maxSize s")
    case True
    obtain as t where sp: "fresh s # xs = as @ [t]"
      by (metis append_butlast_last_id list.distinct(1))
    with rep1 have rep1': "lru_rep s1 (as @ [t])" by simp
    have as: "as = butlast (fresh s # xs)" and t: "t = last (fresh s # xs)"
      using sp by (metis butlast_snoc, metis last_snoc)
    have k1: "map (keyf s1) as = butlast (k # map (keyf s) xs)"
      using keys1 unfolding as by (simp only: map_butlast)
    have k2: "keyf s1 t = last (k # map (keyf s) xs)"
      using keys1 unfolding t by (metis last_map list.distinct(1))
    from rep_evict [OF rep1'] True len1 m1 acc k1 k2 knew
    show ?thesis
      by (intro exI [of _ as]) (simp add: touch_keys_def touch_evicts_def)
  next
    case False
    with rep1 keys1 len1 m1 acc knew show ?thesis
      by (intro exI [of _ "fresh s # xs"]) (simp add: touch_keys_def touch_evicts_def)
  qed
next
  case (Some r)
  then have rx: "r \<in> set xs" and kr: "keyf s r = k" using rep_map_of [OF rep] by auto
  then obtain as bs where sp: "xs = as @ r # bs" by (auto dest: split_list)
  from rep sp have rep': "lru_rep s (as @ r # bs)" by simp
  have acc: "access s k = (moveToFront s r, None)" by (simp add: access_def Some)
  have kin: "k \<in> set (map (keyf s) xs)" using rx kr by auto
  have "k \<notin> keyf s ` set as"
  proof
    assume "k \<in> keyf s ` set as"
    then obtain x where x: "x \<in> set as" "keyf s x = k" by auto
    from inj_onD [OF repD(2) [OF rep']] x kr have "x = r" by simp
    with x repD(1) [OF rep'] show False by simp
  qed
  then have rm: "remove1 k (map (keyf s) xs) = map (keyf s) as @ map (keyf s) bs"
    using kr by (simp add: sp remove1_append)
  from rep_moveToFront [OF rep'] acc kin rm kr
  show ?thesis
    by (intro exI [of _ "r # as @ bs"]) (simp add: touch_keys_def touch_evicts_def)
qed

lemma take_remove1_in:
  "distinct R \<Longrightarrow> k \<in> set (take (Suc n) R) \<Longrightarrow> take n (remove1 k R) = remove1 k (take (Suc n) R)"
proof (induction R arbitrary: n)
  case Nil
  then show ?case by simp
next
  case (Cons a R)
  show ?case
  proof (cases "a = k")
    case True
    then show ?thesis by simp
  next
    case False
    with Cons.prems obtain m where n: "n = Suc m" by (cases n) auto
    with Cons False show ?thesis by auto
  qed
qed

lemma take_remove1_out:
  "k \<notin> set (take (Suc n) R) \<Longrightarrow> take n (remove1 k R) = take n R"
proof (induction R arbitrary: n)
  case Nil
  then show ?case by simp
next
  case (Cons a R)
  then show ?case by (cases n) auto
qed

lemma take_touch:
  assumes "distinct R"
  shows "take cap (k # remove1 k R) = touch_keys cap k (take cap R)"
proof (cases cap)
  case 0
  then show ?thesis by (simp add: touch_keys_def)
next
  case (Suc n)
  show ?thesis
  proof (cases "k \<in> set (take (Suc n) R)")
    case True
    with take_remove1_in [OF assms True] Suc show ?thesis by (simp add: touch_keys_def)
  next
    case False
    have "butlast (take (Suc n) R) = take n R" if "Suc n \<le> length R"
      using that by (simp add: butlast_take)
    with take_remove1_out [OF False] False Suc show ?thesis
      by (auto simp: touch_keys_def min_def)
  qed
qed

lemma by_recency_snoc: "by_recency (ks @ [k]) = k # remove1 k (by_recency ks)"
proof -
  have "remdups (ks @ [k]) = filter (\<lambda>x. x \<noteq> k) (remdups ks) @ [k]"
    by (induction ks) auto
  moreover have "filter (\<lambda>x. x \<noteq> k) (rev (remdups ks)) = remove1 k (rev (remdups ks))"
    by (simp add: distinct_remove1_removeAll removeAll_filter_not_eq) metis
  ultimately show ?thesis by (simp add: by_recency_def rev_filter)
qed

lemma foldl_touch_keys:
  "foldl (\<lambda>a k. touch_keys cap k a) [] ks = take cap (by_recency ks)"
proof (induction ks rule: rev_induct)
  case Nil
  show ?case by (simp add: by_recency_def)
next
  case (snoc k ks)
  have "distinct (by_recency ks)" by (simp add: by_recency_def)
  from take_touch [OF this] snoc show ?case by (simp add: by_recency_snoc)
qed

lemma rep_touch_all:
  "lru_rep s xs \<Longrightarrow>
   \<exists>ys. lru_rep (touch_all s ks) ys \<and>
        map (keyf (touch_all s ks)) ys = foldl (\<lambda>a k. touch_keys (maxSize s) k a) (map (keyf s) xs) ks \<and>
        maxSize (touch_all s ks) = maxSize s"
proof (induction ks arbitrary: s xs)
  case Nil
  then show ?case by auto
next
  case (Cons k ks)
  from rep_access [OF Cons.prems, of k] obtain ys where
    ys: "lru_rep (fst (access s k)) ys"
      "map (keyf (fst (access s k))) ys = touch_keys (maxSize s) k (map (keyf s) xs)"
      "maxSize (fst (access s k)) = maxSize s" by blast
  from Cons.IH [OF ys(1)] ys(2,3) show ?case by simp
qed

lemma lru_keys_rep: "lru_rep s xs \<Longrightarrow> lru_keys s = map (keyf s) xs"
  using walk_dseg [OF repD(3), of s xs "length (cache s)"]
  by (simp add: lru_keys_def repD(4) rep_length)

lemma touch_all_new:
  "\<exists>ys. lru_rep (touch_all (new_LRUCache n) ks) ys \<and>
        map (keyf (touch_all (new_LRUCache n) ks)) ys = take n (by_recency ks) \<and>
        maxSize (touch_all (new_LRUCache n) ks) = n"
  using rep_touch_all [OF rep_new, of n ks]
  by (simp add: foldl_touch_keys new_LRUCache_def)

lemma rep_reach: "lru_rep s xs \<Longrightarrow> {r. reach (nodes s) (head s) r} = set xs"
  using reach_dseg [OF repD(3), of s xs] by (auto simp: repD(4))

lemma rep_cache_keys:
  "lru_rep s xs \<Longrightarrow> fst ` set (cache s) = (\<lambda>r. key (nodes s r)) ` {r. reach (nodes s) (head s) r}"
  by (simp add: rep_reach repD(7) image_image)

lemma rep_cache_nodes:
  "lru_rep s xs \<Longrightarrow> snd ` set (cache s) = {r. reach (nodes s) (head s) r}"
  by (simp add: rep_reach repD(7) image_image)

lemma rep_cache_key_of:
  "lru_rep s xs \<Longrightarrow> (k, r) \<in> set (cache s) \<Longrightarrow> key (nodes s r) = k"
  by (auto simp: repD(7))

lemma rep_tail:
  assumes "lru_rep s xs"
  shows "case tail s of None \<Rightarrow> head s = None
         | Some t \<Rightarrow> reach (nodes s) (head s) t \<and> next (nodes s t) = None"
proof (cases "xs = []")
  case True
  with assms show ?thesis by (simp add: repD(4,5))
next
  case False
  then obtain as t where xs: "xs = as @ [t]" by (metis append_butlast_last_id)
  from repD(3) [OF assms] have "next (nodes s t) = None" by (simp add: xs dseg_append)
  moreover have "reach (nodes s) (head s) t"
    using rep_reach [OF assms] xs by auto
  ultimately show ?thesis using repD(5) [OF assms] xs by simp
qed

lemma new_access_keys:
  "lru_keys (touch_all (new_LRUCache n) ks) = take n (by_recency ks)"
  using touch_all_new [of n ks] by (auto simp: lru_keys_rep)

lemma touch_all_snoc: "touch_all s (ks @ [k]) = fst (access (touch_all s ks) k)"
  by (induction ks arbitrary: s) simp_all

lemma new_access_evicts:
  "snd (access (touch_all (new_LRUCache n) ks) k) =
     touch_evicts n k (lru_keys (touch_all (new_LRUCache n) ks))"
proof -
  from touch_all_new [of n ks] obtain ys where
    ys: "lru_rep (touch_all (new_LRUCache n) ks) ys" "maxSize (touch_all (new_LRUCache n) ks) = n"
    by blast
  from rep_access [OF ys(1), of k] ys(2) show ?thesis
    by (auto simp: lru_keys_rep [OF ys(1)])
qed

lemma new_access_set:
  "set (lru_keys (touch_all (new_LRUCache n) (ks @ [k]))) =
     insert k (set (lru_keys (touch_all (new_LRUCache n) ks)))
       - (case touch_evicts n k (lru_keys (touch_all (new_LRUCache n) ks)) of
            Some v \<Rightarrow> {v} | None \<Rightarrow> {})"
proof -
  let ?R = "by_recency ks"
  have d: "distinct (take n ?R)" by (simp add: by_recency_def)
  have dR: "distinct ?R" by (simp add: by_recency_def)
  have "take n (by_recency (ks @ [k])) = touch_keys n k (take n ?R)"
    unfolding by_recency_snoc by (rule take_touch [OF dR])
  moreover have "set (touch_keys n k xs) = insert k (set xs) - (case touch_evicts n k xs of
            Some v \<Rightarrow> {v} | None \<Rightarrow> {})" if "distinct xs" for xs
  proof (cases "k \<in> set xs")
    case True
    then show ?thesis using that by (auto simp: touch_keys_def touch_evicts_def)
  next
    case False
    show ?thesis
    proof (cases "xs = []")
      case True
      then show ?thesis by (auto simp: touch_keys_def touch_evicts_def)
    next
      case ne: False
      then obtain as t where xs: "xs = as @ [t]" by (metis append_butlast_last_id)
      with that False show ?thesis
        by (auto simp: touch_keys_def touch_evicts_def butlast_append)
    qed
  qed
  ultimately show ?thesis using d by (simp add: new_access_keys)
qed

lemma new_access_length:
  "length (cache (touch_all (new_LRUCache n) ks)) \<le> n"
proof -
  from touch_all_new [of n ks] obtain ys where
    ys: "lru_rep (touch_all (new_LRUCache n) ks) ys"
      "map (keyf (touch_all (new_LRUCache n) ks)) ys = take n (by_recency ks)"
    by blast
  have "length ys = length (take n (by_recency ks))" using ys(2) by (metis length_map)
  then show ?thesis by (simp add: rep_length [OF ys(1)])
qed

lemma new_access_rep: "\<exists>ys. lru_rep (touch_all (new_LRUCache n) ks) ys"
  using touch_all_new [of n ks] by blast

lemma removeFromDB_healthy:
  "idb_at env (opens w) = Healthy \<Longrightarrow> store (removeFromDB env v w) v = None"
  by (simp add: removeFromDB_def openDB_def)

text \<open>
  Claim C3. The checker makes its cache with capacity 1000. For a cache of any capacity,
  take any history \<open>ks\<close> of touches of the new cache, and touch one more key \<open>k\<close>.
  Afterwards the keys of the lookup map are the keys of the nodes reachable from
  \<open>head\<close>, the nodes of the map are these nodes, and the chain ends at \<open>tail\<close>; the
  map has no more keys than the capacity. The cache holds the most recently touched keys,
  as many as the capacity allows, in the order of their last touch, so its last key is
  the least recently touched one: the touch evicts this key, and no other, exactly when
  \<open>k\<close> is new and the cache is full, and it hands the key to \<open>removeFromDB\<close>, which
  deletes the record of that key from a store that works.
\<close>

theorem lru_touch_invariant:
  fixes cap :: nat and ks :: "string list" and k :: string and env :: env and w :: world
  defines "s \<equiv> touch_all (new_LRUCache cap) ks"
  defines "s' \<equiv> fst (access s k)"
  shows "lruCache new_BreachChecker = new_LRUCache 1000 \<and>
         fst ` set (cache s') = (\<lambda>r. key (nodes s' r)) ` {r. reach (nodes s') (head s') r} \<and>
         snd ` set (cache s') = {r. reach (nodes s') (head s') r} \<and>
         (case tail s' of None \<Rightarrow> head s' = None
          | Some t \<Rightarrow> reach (nodes s') (head s') t \<and> next (nodes s' t) = None) \<and>
         length (cache s') \<le> cap \<and>
         set (lru_keys s') = fst ` set (cache s') \<and>
         lru_keys s = take cap (by_recency ks) \<and>
         (0 < cap \<longrightarrow>
            snd (access s k) =
              (if k \<notin> set (lru_keys s) \<and> length (lru_keys s) = cap
               then Some (last (lru_keys s)) else None)) \<and>
         set (lru_keys s') =
           insert k (set (lru_keys s)) - (case snd (access s k) of Some v \<Rightarrow> {v} | None \<Rightarrow> {}) \<and>
         (\<forall>v. idb_at env (opens w) = Healthy \<longrightarrow> store (removeFromDB env v w) v = None)"
proof -
  have s': "s' = touch_all (new_LRUCache cap) (ks @ [k])"
    by (simp add: s'_def s_def touch_all_snoc)
  obtain ys where ys: "lru_rep s' ys" unfolding s' using new_access_rep by blast
  have len: "length (lru_keys s) \<le> cap"
    by (simp add: s_def new_access_keys)
  have ev: "snd (access s k) =
           (if k \<notin> set (lru_keys s) \<and> length (lru_keys s) = cap
            then Some (last (lru_keys s)) else None)" if "0 < cap"
  proof -
    have "lru_keys s \<noteq> []" if "length (lru_keys s) = cap"
      using that \<open>0 < cap\<close> by auto
    then show ?thesis
      using len unfolding s_def new_access_evicts touch_evicts_def by auto
  qed
  have keys: "set (lru_keys s') = fst ` set (cache s')"
    by (simp add: lru_keys_rep [OF ys] repD(7) [OF ys] image_image)
  have st: "set (lru_keys s') =
           insert k (set (lru_keys s)) - (case snd (access s k) of Some v \<Rightarrow> {v} | None \<Rightarrow> {})"
    unfolding s' s_def new_access_evicts by (rule new_access_set)
  have mk: "lruCache new_BreachChecker = new_LRUCache 1000"
    by (simp add: new_BreachChecker_def MAX_CACHE_SIZE_def)
  show ?thesis
    using rep_cache_keys [OF ys] rep_cache_nodes [OF ys] rep_tail [OF ys] keys ev st mk
      new_access_length [of cap "ks @ [k]"] removeFromDB_healthy
    by (simp add: s' [symmetric]) (simp add: s_def new_access_keys)
qed

theorem lru_touch_invariant_witness:
  "(0::nat) < 2 \<and>
   lru_keys (touch_all (new_LRUCache 2) [''5BAA6'', ''21BD1'']) = [''21BD1'', ''5BAA6''] \<and>
   snd (access (touch_all (new_LRUCache 2) [''5BAA6'', ''21BD1'']) ''CBFDA'') = Some ''5BAA6'' \<and>
   idb_at (env_const Healthy NetworkError) (opens world0) = Healthy \<and>
   store (removeFromDB (env_const Healthy NetworkError) ''5BAA6'' world0) ''5BAA6'' = None"
proof -
  let ?s = "touch_all (new_LRUCache 2) [''5BAA6'', ''21BD1'']"
  note T = lru_touch_invariant [where cap = 2 and ks = "[''5BAA6'', ''21BD1'']" and k = "''CBFDA''"
      and env = "env_const Healthy NetworkError" and w = world0]
  have keys: "lru_keys ?s = take 2 (by_recency [''5BAA6'', ''21BD1''])"
    using T by (elim conjE) assumption
  have ev: "0 < (2::nat) \<longrightarrow> snd (access ?s ''CBFDA'') =
      (if ''CBFDA'' \<notin> set (lru_keys ?s) \<and> length (lru_keys ?s) = 2
       then Some (last (lru_keys ?s)) else None)"
    using T by (elim conjE) assumption
  have rm: "\<forall>v. idb_at (env_const Healthy NetworkError) (opens world0) = Healthy \<longrightarrow>
      store (removeFromDB (env_const Healthy NetworkError) v world0) v = None"
    using T by (elim conjE) assumption
  have h: "idb_at (env_const Healthy NetworkError) (opens world0) = Healthy"
    by (simp add: env_const_def)
  have k2: "lru_keys ?s = [''21BD1'', ''5BAA6'']"
    unfolding keys by (simp add: by_recency_def)
  have e: "snd (access ?s ''CBFDA'') = Some ''5BAA6''"
    using ev unfolding k2 by simp
  have z: "(0::nat) < 2" by simp
  have d: "store (removeFromDB (env_const Healthy NetworkError) ''5BAA6'' world0) ''5BAA6'' = None"
    using rm h by blast
  from z k2 e h d show ?thesis by (intro conjI)
qed

section \<open>The digest\<close>

lemma upper_table: "map upper_char ''0123456789abcdef'' = ''0123456789ABCDEF''"
  by (simp add: upper_char_def)

lemma upper_hex_digit: "n < 16 \<Longrightarrow> is_upper_hex (upper_char (hex_digit n))"
proof -
  assume n: "n < 16"
  have "upper_char (hex_digit n) = map upper_char ''0123456789abcdef'' ! n"
    unfolding hex_digit_def using n by (subst nth_map) simp_all
  also have "\<dots> \<in> set (map upper_char ''0123456789abcdef'')"
    using n by (intro nth_mem) simp
  finally show ?thesis unfolding upper_table is_upper_hex_def .
qed

lemma length_bytesToHex: "length (bytesToHex bs) = 2 * length bs"
  by (induction bs) (simp_all add: bytesToHex_def)

lemma upper_hex_digest: "c \<in> set (hex_digest env p) \<Longrightarrow> is_upper_hex c"
proof -
  have b: "unat b div 16 < 16" "unat b mod 16 < 16" for b :: "8 word"
    using unsigned_less [of b, where ?'a = nat] by simp_all
  assume "c \<in> set (hex_digest env p)"
  then show ?thesis
    by (auto simp: hex_digest_def toUpperCase_def bytesToHex_def intro: upper_hex_digit b)
qed

lemma hex_password: "hex_digest (env_const st fo) pw = ''5BAA61E4C9B93F3F0682250B6CF8331B7EE68FD8''"
  by (simp add: hex_digest_def env_const_def sha1_password_def bytesToHex_def toUpperCase_def
        hex_digit_def upper_char_def)

lemma digest_password:
  "digest (env_const st fo) pw = (''5BAA6'', ''1E4C9B93F3F0682250B6CF8331B7EE68FD8'')"
  by (simp add: digest_def hex_password)

lemma length_hex_digest: "length (hex_digest env p) = 2 * length (sha1 env p)"
  by (simp add: hex_digest_def toUpperCase_def length_bytesToHex)

lemma upper_hex_digit_nth:
  "n < 16 \<Longrightarrow> upper_char (hex_digit n) = ''0123456789ABCDEF'' ! n"
proof -
  assume n: "n < 16"
  have "upper_char (hex_digit n) = map upper_char ''0123456789abcdef'' ! n"
    unfolding hex_digit_def using n by (subst nth_map) simp_all
  then show ?thesis unfolding upper_table .
qed

lemma hex_value_table:
  "map hex_value ''0123456789ABCDEF'' = [0, 1, 2, 3, 4, 5, 6, 7, 8, 9, 10, 11, 12, 13, 14, 15]"
  by (simp add: hex_value_def)

lemma nth_sixteen:
  "n < 16 \<Longrightarrow> [0, 1, 2, 3, 4, 5, 6, 7, 8, 9, 10, 11, 12, 13, 14, 15::nat] ! n = n"
proof -
  assume "n < 16"
  then have "n \<in> {0, 1, 2, 3, 4, 5, 6, 7, 8, 9, 10, 11, 12, 13, 14, 15}"
    by simp arith
  then show ?thesis by auto
qed

lemma hex_value_nth: "n < 16 \<Longrightarrow> hex_value (''0123456789ABCDEF'' ! n) = n"
proof -
  assume n: "n < 16"
  have "hex_value (''0123456789ABCDEF'' ! n) = map hex_value ''0123456789ABCDEF'' ! n"
    using n by (subst nth_map) simp_all
  also have "\<dots> = n" unfolding hex_value_table using n by (rule nth_sixteen)
  finally show ?thesis .
qed

lemma byte_nibbles: "unat b div 16 < 16" "unat b mod 16 < 16" for b :: "8 word"
  using unsigned_less [of b, where ?'a = nat] by simp_all

lemma hex_digest_digits:
  "hex_digest env p =
     concat (map (\<lambda>b. [''0123456789ABCDEF'' ! (unat b div 16), ''0123456789ABCDEF'' ! (unat b mod 16)])
               (sha1 env p))"
  by (simp add: hex_digest_def toUpperCase_def bytesToHex_def map_concat comp_def
        upper_hex_digit_nth byte_nibbles)

lemma from_hex_digits:
  "from_hex (concat (map (\<lambda>b. [''0123456789ABCDEF'' ! (unat b div 16), ''0123456789ABCDEF'' ! (unat b mod 16)]) bs))
     = bs"
proof (induction bs)
  case Nil
  show ?case by simp
next
  case (Cons b bs)
  have "word_of_nat (unat b div 16 * 16 + unat b mod 16) = b" by simp
  with Cons show ?case by (simp add: hex_value_nth byte_nibbles)
qed

lemma from_hex_digest: "from_hex (hex_digest env p) = sha1 env p"
  unfolding hex_digest_digits by (rule from_hex_digits)

lemma hex_digest_inj: "(hex_digest env' p' = hex_digest env p) = (sha1 env' p' = sha1 env p)"
proof
  assume "hex_digest env' p' = hex_digest env p"
  then have "from_hex (hex_digest env' p') = from_hex (hex_digest env p)" by simp
  then show "sha1 env' p' = sha1 env p" by (simp only: from_hex_digest)
next
  assume "sha1 env' p' = sha1 env p"
  then show "hex_digest env' p' = hex_digest env p" by (simp add: hex_digest_def)
qed

lemma digest_inj: "(digest env' p' = digest env p) = (sha1 env' p' = sha1 env p)"
proof -
  have "(digest env' p' = digest env p) = (hex_digest env' p' = hex_digest env p)"
  proof
    assume "digest env' p' = digest env p"
    then have "fst (digest env' p') @ snd (digest env' p') = fst (digest env p) @ snd (digest env p)"
      by simp
    then show "hex_digest env' p' = hex_digest env p" by (simp add: digest_def Let_def)
  next
    assume "hex_digest env' p' = hex_digest env p"
    then show "digest env' p' = digest env p" by (simp add: digest_def)
  qed
  then show ?thesis by (simp add: hex_digest_inj)
qed

lemma prefix_digits:
  assumes "length (sha1 env p) = 20"
  shows "fst (digest env p) =
     [''0123456789ABCDEF'' ! (unat (sha1 env p ! 0) div 16),
      ''0123456789ABCDEF'' ! (unat (sha1 env p ! 0) mod 16),
      ''0123456789ABCDEF'' ! (unat (sha1 env p ! 1) div 16),
      ''0123456789ABCDEF'' ! (unat (sha1 env p ! 1) mod 16),
      ''0123456789ABCDEF'' ! (unat (sha1 env p ! 2) div 16)]"
proof -
  have three: "\<exists>a b c ys. xs = a # b # c # ys" if "3 \<le> length xs" for xs :: "8 word list"
  proof (cases xs)
    case Nil
    with that show ?thesis by simp
  next
    case a: (Cons a as)
    show ?thesis
    proof (cases as)
      case Nil
      with a that show ?thesis by simp
    next
      case b: (Cons b bs)
      show ?thesis
      proof (cases bs)
        case Nil
        with a b that show ?thesis by simp
      next
        case (Cons c cs)
        with a b show ?thesis by simp
      qed
    qed
  qed
  from assms have "3 \<le> length (sha1 env p)" by simp
  from three [OF this] obtain b0 b1 b2 bs where "sha1 env p = b0 # b1 # b2 # bs" by blast
  then show ?thesis by (simp add: digest_def Let_def hex_digest_digits)
qed

lemma env_const_simps [simp]:
  "sha1 (env_const st fo) p = sha1_password"
  "idb_at (env_const st fo) n = st"
  "fetch_defined (env_const st fo) = True"
  "fetch_at (env_const st fo) n r t = fo"
  by (simp_all add: env_const_def)

text \<open>
  Claim C9. The digest of a password is a function of the bytes that the hash function
  returns for it and of nothing else: it takes no state and returns none, and two calls
  give the same pair exactly when they hash to the same bytes. The digest is the bytes in
  hexadecimal notation, two upper-case digits to a byte, high half first, and reading
  the notation back gives the bytes. The prefix is the first five characters of the
  digest and the suffix is the rest; for the twenty bytes of SHA-1 the digest has 40
  characters, the prefix 5 (the digits of the first two bytes and the high half of the
  third) and the suffix 35.
\<close>

theorem digest_deterministic_split:
  "hex_digest env p =
     concat (map (\<lambda>b. [''0123456789ABCDEF'' ! (unat b div 16), ''0123456789ABCDEF'' ! (unat b mod 16)])
               (sha1 env p)) \<and>
   from_hex (hex_digest env p) = sha1 env p \<and>
   digest env p = (take 5 (hex_digest env p), drop 5 (hex_digest env p)) \<and>
   fst (digest env p) @ snd (digest env p) = hex_digest env p \<and>
   (\<forall>c\<in>set (hex_digest env p). is_upper_hex c) \<and>
   (length (sha1 env p) = 20 \<longrightarrow>
      length (hex_digest env p) = 40 \<and> length (fst (digest env p)) = 5 \<and>
      length (snd (digest env p)) = 35 \<and>
      fst (digest env p) =
        [''0123456789ABCDEF'' ! (unat (sha1 env p ! 0) div 16),
         ''0123456789ABCDEF'' ! (unat (sha1 env p ! 0) mod 16),
         ''0123456789ABCDEF'' ! (unat (sha1 env p ! 1) div 16),
         ''0123456789ABCDEF'' ! (unat (sha1 env p ! 1) mod 16),
         ''0123456789ABCDEF'' ! (unat (sha1 env p ! 2) div 16)]) \<and>
   ((digest env' p' = digest env p) = (sha1 env' p' = sha1 env p))"
proof (intro conjI impI ballI)
  show "hex_digest env p =
     concat (map (\<lambda>b. [''0123456789ABCDEF'' ! (unat b div 16), ''0123456789ABCDEF'' ! (unat b mod 16)])
               (sha1 env p))"
    by (rule hex_digest_digits)
  show "from_hex (hex_digest env p) = sha1 env p" by (rule from_hex_digest)
  show "digest env p = (take 5 (hex_digest env p), drop 5 (hex_digest env p))"
    by (simp add: digest_def Let_def)
  show "fst (digest env p) @ snd (digest env p) = hex_digest env p"
    by (simp add: digest_def Let_def)
  show "is_upper_hex c" if "c \<in> set (hex_digest env p)" for c
    using that by (rule upper_hex_digest)
  show "length (hex_digest env p) = 40" if "length (sha1 env p) = 20"
    using that by (simp add: length_hex_digest)
  show "length (fst (digest env p)) = 5" if "length (sha1 env p) = 20"
    using that by (simp add: digest_def Let_def length_hex_digest)
  show "length (snd (digest env p)) = 35" if "length (sha1 env p) = 20"
    using that by (simp add: digest_def Let_def length_hex_digest)
  show "fst (digest env p) =
        [''0123456789ABCDEF'' ! (unat (sha1 env p ! 0) div 16),
         ''0123456789ABCDEF'' ! (unat (sha1 env p ! 0) mod 16),
         ''0123456789ABCDEF'' ! (unat (sha1 env p ! 1) div 16),
         ''0123456789ABCDEF'' ! (unat (sha1 env p ! 1) mod 16),
         ''0123456789ABCDEF'' ! (unat (sha1 env p ! 2) div 16)]" if "length (sha1 env p) = 20"
    using that by (rule prefix_digits)
  show "(digest env' p' = digest env p) = (sha1 env' p' = sha1 env p)"
    by (rule digest_inj)
qed

theorem digest_deterministic_split_witness:
  "length (sha1 (env_const Healthy NetworkError) ''password'') = 20 \<and>
   fst (digest (env_const Healthy NetworkError) ''password'') = ''5BAA6'' \<and>
   length (snd (digest (env_const Healthy NetworkError) ''password'')) = 35 \<and>
   from_hex (hex_digest (env_const Healthy NetworkError) ''password'') = sha1_password \<and>
   sha1 (env_const Unavailable Aborted) ''password'' = sha1 (env_const Healthy NetworkError) ''password'' \<and>
   digest (env_const Unavailable Aborted) ''password'' = digest (env_const Healthy NetworkError) ''password''"
proof -
  let ?E = "env_const Healthy NetworkError"
  note T = digest_deterministic_split [of ?E "''password''" "env_const Unavailable Aborted" "''password''"]
  have h: "length (sha1 ?E ''password'') = 20"
    by (simp add: sha1_password_def)
  have e: "sha1 (env_const Unavailable Aborted) ''password'' = sha1 ?E ''password''"
    by simp
  from T h have "fst (digest ?E ''password'') =
        [''0123456789ABCDEF'' ! (unat (sha1 ?E ''password'' ! 0) div 16),
         ''0123456789ABCDEF'' ! (unat (sha1 ?E ''password'' ! 0) mod 16),
         ''0123456789ABCDEF'' ! (unat (sha1 ?E ''password'' ! 1) div 16),
         ''0123456789ABCDEF'' ! (unat (sha1 ?E ''password'' ! 1) mod 16),
         ''0123456789ABCDEF'' ! (unat (sha1 ?E ''password'' ! 2) div 16)]"
    by blast
  then have p: "fst (digest ?E ''password'') = ''5BAA6''"
    by (simp add: sha1_password_def)
  from T h have l: "length (snd (digest ?E ''password'')) = 35" by blast
  from T have "from_hex (hex_digest ?E ''password'') = sha1 ?E ''password''" by blast
  then have f: "from_hex (hex_digest ?E ''password'') = sha1_password" by simp
  from T e have d: "digest (env_const Unavailable Aborted) ''password'' = digest ?E ''password''"
    by blast
  from h p l f e d show ?thesis by (intro conjI)
qed

lemmas idb_defs = openDB_def initDB_def removeFromDB_def setCacheEntry_def getCacheEntry_def

section \<open>The durable store\<close>

text \<open>
  Claim C4. The TTL is 24 hours, 86400000 milliseconds. On a store that works,
  \<open>getCacheEntry\<close> returns absent when there is no record for the prefix; it returns
  the record when its age is at most 86400000 milliseconds; and for an older record, such
  as one written at \<open>now - (TTL + 1)\<close>, it returns absent and deletes the record.
\<close>

theorem getCacheEntry_ttl:
  assumes "idb_at env (opens w) = Healthy"
  shows "CACHE_TTL_MS = 24 * 60 * 60 * 1000 \<and> CACHE_TTL_MS = 86400000 \<and>
         (store w pfx = None \<longrightarrow>
            fst (getCacheEntry env pfx w) = Inr None \<and>
            store (snd (getCacheEntry env pfx w)) = store w) \<and>
         (\<forall>e. store w pfx = Some e \<and> clock w - timestamp e \<le> 86400000 \<longrightarrow>
            fst (getCacheEntry env pfx w) = Inr (Some e) \<and>
            store (snd (getCacheEntry env pfx w)) = store w) \<and>
         (\<forall>e. store w pfx = Some e \<and> clock w - timestamp e > 86400000 \<longrightarrow>
            fst (getCacheEntry env pfx w) = Inr None \<and>
            store (snd (getCacheEntry env pfx w)) = (store w)(pfx := None)) \<and>
         (\<forall>e. store w pfx = Some e \<and> timestamp e = clock w - (86400000 + 1) \<longrightarrow>
            fst (getCacheEntry env pfx w) = Inr None \<and>
            store (snd (getCacheEntry env pfx w)) pfx = None)"
  using assms by (auto simp: getCacheEntry_def openDB_def CACHE_TTL_MS_def)

theorem getCacheEntry_ttl_witness:
  "idb_at (env_const Healthy NetworkError) (opens stale_world) = Healthy \<and>
   store stale_world ''5BAA6'' \<noteq> None \<and>
   timestamp (the (store stale_world ''5BAA6'')) = clock stale_world - (86400000 + 1) \<and>
   fst (getCacheEntry (env_const Healthy NetworkError) ''5BAA6'' stale_world) = Inr None \<and>
   store (snd (getCacheEntry (env_const Healthy NetworkError) ''5BAA6'' stale_world)) ''5BAA6'' = None \<and>
   idb_at (env_const Healthy NetworkError) (opens hour_old_world) = Healthy \<and>
   store hour_old_world ''5BAA6'' \<noteq> None \<and>
   clock hour_old_world - timestamp (the (store hour_old_world ''5BAA6'')) = 3600000 \<and>
   fst (getCacheEntry (env_const Healthy NetworkError) ''5BAA6'' hour_old_world)
     = Inr (store hour_old_world ''5BAA6'') \<and>
   store world0 ''5BAA6'' = None \<and>
   fst (getCacheEntry (env_const Healthy NetworkError) ''5BAA6'' world0) = Inr None"
proof -
  let ?E = "env_const Healthy NetworkError"
  have h: "idb_at ?E (opens stale_world) = Healthy" "idb_at ?E (opens hour_old_world) = Healthy"
    "idb_at ?E (opens world0) = Healthy" by simp_all
  have s: "store stale_world ''5BAA6'' = Some \<lparr>prefix = ''5BAA6'', hashes = [''1E4C9B93F3F0682250B6CF8331B7EE68FD8''],
         timestamp = clock stale_world - (86400000 + 1)\<rparr>"
    by (simp add: stale_world_def world0_def CACHE_TTL_MS_def)
  have f: "store hour_old_world ''5BAA6'' = Some \<lparr>prefix = ''5BAA6'', hashes = [''1E4C9B93F3F0682250B6CF8331B7EE68FD8''],
         timestamp = clock hour_old_world - 3600000\<rparr>"
    by (simp add: hour_old_world_def world0_def)
  have z: "store world0 ''5BAA6'' = None" by (simp add: world0_def)
  from getCacheEntry_ttl [OF h(1), of "''5BAA6''"] s
  have 1: "fst (getCacheEntry ?E ''5BAA6'' stale_world) = Inr None"
    "store (snd (getCacheEntry ?E ''5BAA6'' stale_world)) ''5BAA6'' = None" by simp_all
  from getCacheEntry_ttl [OF h(2), of "''5BAA6''"] f
  have 2: "fst (getCacheEntry ?E ''5BAA6'' hour_old_world) = Inr (store hour_old_world ''5BAA6'')"
    by simp
  from getCacheEntry_ttl [OF h(3), of "''5BAA6''"] z
  have 3: "fst (getCacheEntry ?E ''5BAA6'' world0) = Inr None" by simp
  from h s f z 1 2 3 show ?thesis by simp
qed

section \<open>The remote lookup\<close>

lemma sent_sleep [simp]: "sent (sleep ms w) = sent w"
  by (simp add: sleep_def)

lemma sent_rateLimit [simp]: "sent (snd (rateLimit c w)) = sent w"
  by (simp add: rateLimit_def Let_def)

lemma sent_fetch [simp]: "sent (snd (fetch env req tmo w)) = sent w @ [req]"
  by (simp add: fetch_def)

lemma fst_fetch [simp]: "fst (fetch env req tmo w) = fetch_at env (length (sent w)) req tmo"
  by (simp add: fetch_def)

declare fetch_loop.simps [simp del]

lemma fetch_loop_sent:
  "\<exists>n. n \<le> MAX_RETRIES - attempt \<and> (attempt < MAX_RETRIES \<longrightarrow> 1 \<le> n) \<and>
       sent (snd (snd (fetch_loop env pfx tmo attempt le c w))) =
         sent w @ replicate n (hibp_request pfx)"
proof (induction env pfx tmo attempt le c w rule: fetch_loop.induct)
  case (1 env pfx tmo attempt lastError c w)
  show ?case
  proof (cases "attempt < MAX_RETRIES")
    case False
    then show ?thesis by (subst fetch_loop.simps) simp
  next
    case True
    obtain c1 w1 where rl: "rateLimit c w = (c1, w1)" by (cases "rateLimit c w")
    obtain outcome w2 where f: "fetch env (hibp_request pfx) tmo w1 = (outcome, w2)"
      by (cases "fetch env (hibp_request pfx) tmo w1")
    have s1: "sent w1 = sent w" using sent_rateLimit [of c w] rl by simp
    have s2: "sent w2 = sent w @ [hibp_request pfx]"
      using sent_fetch [of env "hibp_request pfx" tmo w1] f s1 by simp
    show ?thesis
    proof (cases "attempt_of outcome")
      case (Done hs)
      with True rl f s2 show ?thesis
        by (subst fetch_loop.simps) (auto intro!: exI [of _ 1])
    next
      case Throttled
      from "1.IH"(1) [OF True rl [symmetric] f [symmetric] Throttled]
      obtain n where n: "n \<le> MAX_RETRIES - Suc attempt"
        "sent (snd (snd (fetch_loop env pfx tmo (Suc attempt) lastError c1 (sleep (backoff attempt) w2)))) =
           sent (sleep (backoff attempt) w2) @ replicate n (hibp_request pfx)" by blast
      with True rl f s2 Throttled show ?thesis
        by (subst fetch_loop.simps)
          (auto intro!: exI [of _ "Suc n"] simp: replicate_append_same [symmetric] simp del: replicate_append_same)
    next
      case (Thrown e)
      show ?thesis
      proof (cases "e = AbortError")
        case True
        with \<open>attempt < MAX_RETRIES\<close> rl f s2 Thrown show ?thesis
          by (subst fetch_loop.simps) (auto intro!: exI [of _ 1])
      next
        case False
        let ?w = "if attempt < MAX_RETRIES - 1 then sleep (backoff attempt) w2 else w2"
        from "1.IH"(2) [OF True rl [symmetric] f [symmetric] Thrown False]
        obtain n where n: "n \<le> MAX_RETRIES - Suc attempt"
          "sent (snd (snd (fetch_loop env pfx tmo (Suc attempt) (Some e) c1 ?w))) =
             sent ?w @ replicate n (hibp_request pfx)" by blast
        have "sent ?w = sent w2" by simp
        with n True rl f s2 Thrown False show ?thesis
          by (subst fetch_loop.simps)
            (auto intro!: exI [of _ "Suc n"] simp: replicate_append_same [symmetric] simp del: replicate_append_same)
      qed
    qed
  qed
qed

lemma fetch_loop_first:
  "attempt < MAX_RETRIES \<Longrightarrow>
   (sent (snd (snd (fetch_loop env pfx tmo attempt le c w))) = sent w @ [hibp_request pfx]) =
     ((\<exists>hs. attempt_of (fetch_at env (length (sent w)) (hibp_request pfx) tmo) = Done hs) \<or>
       attempt_of (fetch_at env (length (sent w)) (hibp_request pfx) tmo) = Thrown AbortError \<or>
       Suc attempt = MAX_RETRIES)"
proof -
  assume a: "attempt < MAX_RETRIES"
  obtain c1 w1 where rl: "rateLimit c w = (c1, w1)" by (cases "rateLimit c w")
  obtain outcome w2 where f: "fetch env (hibp_request pfx) tmo w1 = (outcome, w2)"
    by (cases "fetch env (hibp_request pfx) tmo w1")
  have s1: "sent w1 = sent w" using sent_rateLimit [of c w] rl by simp
  have s2: "sent w2 = sent w @ [hibp_request pfx]"
    using sent_fetch [of env "hibp_request pfx" tmo w1] f s1 by simp
  have o: "outcome = fetch_at env (length (sent w)) (hibp_request pfx) tmo"
    using fst_fetch [of env "hibp_request pfx" tmo w1] f s1 by simp
  have rest: "sent (snd (snd (fetch_loop env pfx tmo (Suc attempt) le' c' w'))) = sent w' \<longleftrightarrow>
      Suc attempt = MAX_RETRIES" for le' c' w'
  proof -
    from fetch_loop_sent [of "Suc attempt" env pfx tmo le' c' w']
    obtain n where n: "n \<le> MAX_RETRIES - Suc attempt" "Suc attempt < MAX_RETRIES \<longrightarrow> 1 \<le> n"
      "sent (snd (snd (fetch_loop env pfx tmo (Suc attempt) le' c' w'))) =
         sent w' @ replicate n (hibp_request pfx)" by blast
    with a show ?thesis by (cases n) auto
  qed
  show ?thesis
  proof (cases "attempt_of outcome")
    case (Done hs)
    with a rl f s2 o show ?thesis by (subst fetch_loop.simps) auto
  next
    case Throttled
    with a rl f s2 o rest [of le c1 "sleep (backoff attempt) w2"] show ?thesis
      by (subst fetch_loop.simps) auto
  next
    case (Thrown e)
    with a rl f s2 o rest [of "Some e" c1 "sleep (backoff attempt) w2"] rest [of "Some e" c1 w2]
    show ?thesis
      by (subst fetch_loop.simps) auto
  qed
qed

lemma clock_rateLimit: "clock w \<le> clock (snd (rateLimit c w))"
  by (simp add: rateLimit_def Let_def sleep_def)

lemma clock_fetch: "clock (snd (fetch env req tmo w)) = clock w"
  by (simp add: fetch_def)

lemma throttled_step:
  assumes "attempt < MAX_RETRIES"
    and "\<And>n r t. attempt_of (fetch_at env n r t) = Throttled"
  shows "fetch_loop env pfx tmo attempt le c w =
           fetch_loop env pfx tmo (Suc attempt) le (fst (rateLimit c w))
             (sleep (backoff attempt) (snd (fetch env (hibp_request pfx) tmo (snd (rateLimit c w)))))"
  using assms by (subst fetch_loop.simps) (simp add: fetch_def case_prod_beta)

lemma fetch_throttled_clock:
  assumes "\<forall>n r t. \<exists>b. fetch_at env n r t = Response 429 b"
  shows "clock w + 7000 \<le> clock (snd (snd (fetchFromHIBP env pfx tmo c w)))"
proof -
  have th: "attempt_of (fetch_at env n r t) = Throttled" for n r t
    using assms [rule_format, of n r t] by (auto simp: attempt_of_def response_ok_def)
  define c1 where "c1 = fst (rateLimit c w)"
  define w1 where "w1 = sleep (backoff 0) (snd (fetch env (hibp_request pfx) tmo (snd (rateLimit c w))))"
  define c2 where "c2 = fst (rateLimit c1 w1)"
  define w2 where "w2 = sleep (backoff (Suc 0)) (snd (fetch env (hibp_request pfx) tmo (snd (rateLimit c1 w1))))"
  define c3 where "c3 = fst (rateLimit c2 w2)"
  define w3 where "w3 = sleep (backoff (Suc (Suc 0))) (snd (fetch env (hibp_request pfx) tmo (snd (rateLimit c2 w2))))"
  have "fetchFromHIBP env pfx tmo c w = fetch_loop env pfx tmo (Suc (Suc (Suc 0))) None c3 w3"
    unfolding fetchFromHIBP_def c1_def w1_def c2_def w2_def c3_def w3_def
    by (simp add: throttled_step [OF _ th] MAX_RETRIES_def)
  then have e: "snd (snd (fetchFromHIBP env pfx tmo c w)) = w3"
    by (simp add: fetch_loop.simps [of _ _ _ "Suc (Suc (Suc 0))"] MAX_RETRIES_def)
  have 1: "clock w + 1000 \<le> clock w1"
    using clock_rateLimit [of w c]
    by (simp add: w1_def sleep_def clock_fetch backoff_def INITIAL_BACKOFF_MS_def)
  have 2: "clock w1 + 2000 \<le> clock w2"
    using clock_rateLimit [of w1 c1]
    by (simp add: w2_def sleep_def clock_fetch backoff_def INITIAL_BACKOFF_MS_def)
  have 3: "clock w2 + 4000 \<le> clock w3"
    using clock_rateLimit [of w2 c2]
    by (simp add: w3_def sleep_def clock_fetch backoff_def INITIAL_BACKOFF_MS_def)
  from 1 2 3 show ?thesis unfolding e by linarith
qed

lemma rateLimit_paces:
  "lastRequestTime c + 1000 \<le> clock (snd (rateLimit c w)) \<and>
   lastRequestTime (fst (rateLimit c w)) = clock (snd (rateLimit c w))"
  by (simp add: rateLimit_def Let_def sleep_def RATE_LIMIT_MS_def)

text \<open>
  Claim C7, as the code has it. \<open>fetchFromHIBP\<close> is the fetch operation and has the
  retry loop inside: one call issues between one and \<open>MAX_RETRIES\<close> = 3 requests, all
  of them the request for the prefix. It issues exactly one when the first attempt
  returns a bucket or is aborted by the timer; after a 429 or another error it tries
  again itself. The loop paces and backs off: \<open>rateLimit\<close> lets no attempt start
  before one second after the last one started, and when every attempt is answered 429
  the call waits 1000, 2000 and 4000 milliseconds, at least 7000 in all.
\<close>

theorem fetchFromHIBP_requests:
  "(\<exists>n. 1 \<le> n \<and> n \<le> MAX_RETRIES \<and>
       sent (snd (snd (fetchFromHIBP env pfx tmo c w))) = sent w @ replicate n (hibp_request pfx) \<and>
       ((n = 1) =
          ((\<exists>hs. attempt_of (fetch_at env (length (sent w)) (hibp_request pfx) tmo) = Done hs) \<or>
           attempt_of (fetch_at env (length (sent w)) (hibp_request pfx) tmo) = Thrown AbortError))) \<and>
   lastRequestTime c + 1000 \<le> clock (snd (rateLimit c w)) \<and>
   lastRequestTime (fst (rateLimit c w)) = clock (snd (rateLimit c w)) \<and>
   ((\<forall>n r t. \<exists>b. fetch_at env n r t = Response 429 b) \<longrightarrow>
      clock w + 7000 \<le> clock (snd (snd (fetchFromHIBP env pfx tmo c w))))"
proof (intro conjI impI)
  from fetch_loop_sent [of 0 env pfx tmo None c w]
  obtain n where n: "n \<le> MAX_RETRIES" "1 \<le> n"
    "sent (snd (snd (fetch_loop env pfx tmo 0 None c w))) = sent w @ replicate n (hibp_request pfx)"
    by (auto simp: MAX_RETRIES_def)
  have "(n = 1) = (replicate n (hibp_request pfx) = [hibp_request pfx])"
    by (cases n) auto
  with fetch_loop_first [of 0 env pfx tmo None c w] n
  show "\<exists>n. 1 \<le> n \<and> n \<le> MAX_RETRIES \<and>
       sent (snd (snd (fetchFromHIBP env pfx tmo c w))) = sent w @ replicate n (hibp_request pfx) \<and>
       ((n = 1) =
          ((\<exists>hs. attempt_of (fetch_at env (length (sent w)) (hibp_request pfx) tmo) = Done hs) \<or>
           attempt_of (fetch_at env (length (sent w)) (hibp_request pfx) tmo) = Thrown AbortError))"
    unfolding fetchFromHIBP_def by (intro exI [of _ n]) (simp add: MAX_RETRIES_def)
  show "lastRequestTime c + 1000 \<le> clock (snd (rateLimit c w))"
    using rateLimit_paces [of c w] by simp
  show "lastRequestTime (fst (rateLimit c w)) = clock (snd (rateLimit c w))"
    using rateLimit_paces [of c w] by simp
  show "clock w + 7000 \<le> clock (snd (snd (fetchFromHIBP env pfx tmo c w)))"
    if "\<forall>n r t. \<exists>b. fetch_at env n r t = Response 429 b"
    using that by (rule fetch_throttled_clock)
qed

theorem fetchFromHIBP_requests_witness:
  "(\<exists>n. 1 \<le> n \<and> n \<le> MAX_RETRIES \<and>
       sent (snd (snd (fetchFromHIBP (env_const Healthy Aborted) ''5BAA6'' 5000 new_BreachChecker world0)))
         = sent world0 @ replicate n (hibp_request ''5BAA6'') \<and> n = 1) \<and>
   (\<forall>n r t. \<exists>b. fetch_at (env_const Healthy (Response 429 None)) n r t = Response 429 b) \<and>
   clock world0 + 7000 \<le>
     clock (snd (snd (fetchFromHIBP (env_const Healthy (Response 429 None)) ''5BAA6'' 5000
                        new_BreachChecker world0)))"
proof -
  note A = fetchFromHIBP_requests [of "env_const Healthy Aborted" "''5BAA6''" 5000 new_BreachChecker world0]
  note B = fetchFromHIBP_requests [of "env_const Healthy (Response 429 None)" "''5BAA6''" 5000
      new_BreachChecker world0]
  have h: "\<forall>n r t. \<exists>b. fetch_at (env_const Healthy (Response 429 None)) n r t = Response 429 b"
    by simp
  from A have 1: "\<exists>n. 1 \<le> n \<and> n \<le> MAX_RETRIES \<and>
       sent (snd (snd (fetchFromHIBP (env_const Healthy Aborted) ''5BAA6'' 5000 new_BreachChecker world0)))
         = sent world0 @ replicate n (hibp_request ''5BAA6'') \<and> n = 1"
    by (auto simp: attempt_of_def)
  from B h have 2: "clock world0 + 7000 \<le>
     clock (snd (snd (fetchFromHIBP (env_const Healthy (Response 429 None)) ''5BAA6'' 5000
                        new_BreachChecker world0)))"
    by blast
  from 1 h 2 show ?thesis by (intro conjI)
qed

text \<open>
  Claim C7 as stated (one request per call) fails when the service answers 429: the
  call for the prefix \<open>5BAA6\<close> sends three requests.
\<close>

theorem fetchFromHIBP_retries_counterexample:
  "sent world0 = [] \<and>
   sent (snd (snd (fetchFromHIBP (env_const Healthy (Response 429 (Some []))) ''5BAA6'' 5000
                     new_BreachChecker world0)))
     = [hibp_request ''5BAA6'', hibp_request ''5BAA6'', hibp_request ''5BAA6'']"
  by (simp add: fetchFromHIBP_def fetch_loop.simps [of _ _ _ 0] fetch_loop.simps [of _ _ _ "Suc 0"]
      fetch_loop.simps [of _ _ _ "Suc (Suc 0)"] fetch_loop.simps [of _ _ _ "Suc (Suc (Suc 0))"]
      MAX_RETRIES_def rateLimit_def Let_def fetch_def attempt_of_def response_ok_def sleep_def
      world0_def new_BreachChecker_def)

section \<open>The orchestrator\<close>

lemma sent_openDB [simp]: "sent (snd (openDB env w)) = sent w"
  by (simp add: openDB_def)

lemma sent_initDB [simp]: "sent (snd (initDB env c w)) = sent w"
  by (simp add: initDB_def openDB_def split: idb_status.splits)

lemma sent_removeFromDB [simp]: "sent (removeFromDB env k w) = sent w"
  by (simp add: removeFromDB_def openDB_def split: idb_status.splits)

lemma sent_setCacheEntry [simp]: "sent (setCacheEntry env e w) = sent w"
  by (simp add: setCacheEntry_def openDB_def split: idb_status.splits)

lemma sent_getCacheEntry [simp]: "sent (snd (getCacheEntry env k w)) = sent w"
  by (simp add: getCacheEntry_def openDB_def split: idb_status.splits option.splits)

lemma sent_network_check:
  "\<exists>n\<le>MAX_RETRIES. 1 \<le> n \<and> sent (snd (snd (network_check env pfx sfx tmo c w))) =
       sent w @ replicate n (hibp_request pfx)"
proof -
  from fetch_loop_sent [of 0 env pfx tmo None c w]
  obtain n where n: "n \<le> MAX_RETRIES" "1 \<le> n"
    "sent (snd (snd (fetchFromHIBP env pfx tmo c w))) = sent w @ replicate n (hibp_request pfx)"
    by (auto simp: MAX_RETRIES_def fetchFromHIBP_def)
  then show ?thesis
    by (intro exI [of _ n]) (auto simp: network_check_def split: prod.splits sum.splits)
qed

text \<open>The outer \<open>try\<close> block, with its intermediate states named.\<close>

lemma checkPassword_try_cases:
  obtains
    (raised) c1 w1 lru ev w2 e w3 where
      "initDB env c w = (c1, w1)" "access (lruCache c1) (fst (digest env p)) = (lru, ev)"
      "w2 = (case ev of Some k \<Rightarrow> removeFromDB env k w1 | None \<Rightarrow> w1)"
      "getCacheEntry env (fst (digest env p)) w2 = (Inl e, w3)"
      "checkPassword_try env p opts c w = (Inl e, c1\<lparr>lruCache := lru\<rparr>, w3)"
  | (hit) c1 w1 lru ev w2 entry w3 where
      "initDB env c w = (c1, w1)" "access (lruCache c1) (fst (digest env p)) = (lru, ev)"
      "w2 = (case ev of Some k \<Rightarrow> removeFromDB env k w1 | None \<Rightarrow> w1)"
      "getCacheEntry env (fst (digest env p)) w2 = (Inr (Some entry), w3)"
      "checkPassword_try env p opts c w =
         (Inr (verdict (snd (digest env p) \<in> set (hashes entry)) True), c1\<lparr>lruCache := lru\<rparr>, w3)"
  | (offline) c1 w1 lru ev w2 w3 where
      "initDB env c w = (c1, w1)" "access (lruCache c1) (fst (digest env p)) = (lru, ev)"
      "w2 = (case ev of Some k \<Rightarrow> removeFromDB env k w1 | None \<Rightarrow> w1)"
      "getCacheEntry env (fst (digest env p)) w2 = (Inr None, w3)"
      "\<not> opt_allowNetwork opts \<or> \<not> fetch_defined env"
      "checkPassword_try env p opts c w = (Inr offline_result, c1\<lparr>lruCache := lru\<rparr>, w3)"
  | (network) c1 w1 lru ev w2 w3 where
      "initDB env c w = (c1, w1)" "access (lruCache c1) (fst (digest env p)) = (lru, ev)"
      "w2 = (case ev of Some k \<Rightarrow> removeFromDB env k w1 | None \<Rightarrow> w1)"
      "getCacheEntry env (fst (digest env p)) w2 = (Inr None, w3)"
      "opt_allowNetwork opts" "fetch_defined env"
      "checkPassword_try env p opts c w =
         (Inr (fst (network_check env (fst (digest env p)) (snd (digest env p)) (opt_timeout opts)
                 (c1\<lparr>lruCache := lru\<rparr>) w3)),
          snd (network_check env (fst (digest env p)) (snd (digest env p)) (opt_timeout opts)
                 (c1\<lparr>lruCache := lru\<rparr>) w3))"
proof -
  obtain c1 w1 where i: "initDB env c w = (c1, w1)" by (cases "initDB env c w")
  obtain pfx sfx where d: "digest env p = (pfx, sfx)" by (cases "digest env p")
  obtain lru ev where a: "access (lruCache c1) pfx = (lru, ev)" by (cases "access (lruCache c1) pfx")
  define w2 where "w2 = (case ev of Some k \<Rightarrow> removeFromDB env k w1 | None \<Rightarrow> w1)"
  obtain g w3 where g: "getCacheEntry env pfx w2 = (g, w3)" by (cases "getCacheEntry env pfx w2")
  have unf: "checkPassword_try env p opts c w =
      (case g of Inl e \<Rightarrow> (Inl e, c1\<lparr>lruCache := lru\<rparr>, w3)
       | Inr (Some entry) \<Rightarrow> (Inr (verdict (sfx \<in> set (hashes entry)) True), c1\<lparr>lruCache := lru\<rparr>, w3)
       | Inr None \<Rightarrow>
                if \<not> opt_allowNetwork opts then (Inr offline_result, c1\<lparr>lruCache := lru\<rparr>, w3)
                else if \<not> fetch_defined env then (Inr offline_result, c1\<lparr>lruCache := lru\<rparr>, w3)
                else (case network_check env pfx sfx (opt_timeout opts) (c1\<lparr>lruCache := lru\<rparr>) w3 of
                        (r, c4, w4) \<Rightarrow> (Inr r, c4, w4)))"
    by (simp add: checkPassword_try_def i d a g w2_def [symmetric] Let_def
          split: sum.splits option.splits)
  show thesis
  proof (cases g)
    case (Inl e)
    with unf i d a g w2_def show ?thesis by (intro raised [of c1 w1 lru ev w2 e w3]) simp_all
  next
    case (Inr v)
    show ?thesis
    proof (cases v)
      case (Some entry)
      with Inr unf i d a g w2_def show ?thesis by (intro hit [of c1 w1 lru ev w2 entry w3]) simp_all
    next
      case None
      show ?thesis
      proof (cases "\<not> opt_allowNetwork opts \<or> \<not> fetch_defined env")
        case True
        with None Inr unf i d a g w2_def show ?thesis
          by (intro offline [of c1 w1 lru ev w2 w3]) auto
      next
        case False
        with None Inr unf i d a g w2_def show ?thesis
          by (intro network [of c1 w1 lru ev w2 w3]) (auto split: prod.splits)
      qed
    qed
  qed
qed

lemma sent_before_lookup:
  assumes "initDB env c w = (c1, w1)"
    and "w2 = (case ev of Some k \<Rightarrow> removeFromDB env k w1 | None \<Rightarrow> w1)"
    and "getCacheEntry env pfx w2 = (g, w3)"
  shows "sent w3 = sent w"
proof -
  have "sent w1 = sent w" using sent_initDB [of env c w] assms(1) by simp
  moreover have "sent w2 = sent w1" using assms(2) by (cases ev) simp_all
  moreover have "sent w3 = sent w2" using sent_getCacheEntry [of env pfx w2] assms(3) by simp
  ultimately show ?thesis by simp
qed

lemma checkPassword_try_sent:
  "\<exists>n\<le>MAX_RETRIES. sent (snd (snd (checkPassword_try env p opts c w))) =
       sent w @ replicate n (hibp_request (fst (digest env p)))"
proof (cases rule: checkPassword_try_cases [of env c w p opts])
  case (raised c1 w1 lru ev w2 e w3)
  with sent_before_lookup [OF raised(1,3,4)] show ?thesis by (intro exI [of _ 0]) simp
next
  case (hit c1 w1 lru ev w2 entry w3)
  with sent_before_lookup [OF hit(1,3,4)] show ?thesis by (intro exI [of _ 0]) simp
next
  case (offline c1 w1 lru ev w2 w3)
  with sent_before_lookup [OF offline(1,3,4)] show ?thesis by (intro exI [of _ 0]) simp
next
  case (network c1 w1 lru ev w2 w3)
  from sent_network_check [of env "fst (digest env p)" "snd (digest env p)" "opt_timeout opts"
      "c1\<lparr>lruCache := lru\<rparr>" w3]
  obtain n where "n \<le> MAX_RETRIES"
    "sent (snd (snd (network_check env (fst (digest env p)) (snd (digest env p)) (opt_timeout opts)
                 (c1\<lparr>lruCache := lru\<rparr>) w3))) = sent w3 @ replicate n (hibp_request (fst (digest env p)))"
    by blast
  with network(7) sent_before_lookup [OF network(1,3,4)] show ?thesis
    by (intro exI [of _ n]) simp
qed

lemma checkPassword_snd: "snd (checkPassword env p opts c w) = snd (checkPassword_try env p opts c w)"
  by (simp add: checkPassword_def split: prod.splits sum.splits)

lemma checkPassword_fst:
  "fst (checkPassword env p opts c w) =
     (case fst (checkPassword_try env p opts c w) of Inl e \<Rightarrow> Inr error_result | Inr r \<Rightarrow> Inr r)"
  by (simp add: checkPassword_def split: prod.splits sum.splits)

lemmas fetch_loop_unroll =
  fetch_loop.simps [of _ _ _ 0] fetch_loop.simps [of _ _ _ "Suc 0"]
  fetch_loop.simps [of _ _ _ "Suc (Suc 0)"] fetch_loop.simps [of _ _ _ "Suc (Suc (Suc 0))"]






lemma checkPassword_resolves: "\<exists>r. fst (checkPassword env p opts c w) = Inr r"
  by (simp add: checkPassword_fst split: sum.splits)



lemmas eval_defs = checkPassword_def checkPassword_try_def digest_password idb_defs
  world0_def new_BreachChecker_def access_def new_LRUCache_def Let_def MAX_CACHE_SIZE_def
  opt_allowNetwork_def opt_timeout_def network_check_def fetchFromHIBP_def fetch_loop_unroll
  MAX_RETRIES_def rateLimit_def fetch_def attempt_of_def response_ok_def sleep_def offline_opts_def


lemma network_check_results:
  "fst (network_check env pfx sfx tmo c w) = offline_result \<or>
   (\<exists>b. fst (network_check env pfx sfx tmo c w) = verdict b False)"
  by (cases "fetchFromHIBP env pfx tmo c w") (auto simp: network_check_def split: sum.splits)

lemma checkPassword_try_results:
  "fst (checkPassword_try env p opts c w) = Inr r \<Longrightarrow>
     r = offline_result \<or> (\<exists>b fc. r = verdict b fc)"
proof (cases rule: checkPassword_try_cases [of env c w p opts])
  case (network c1 w1 lru ev w2 w3)
  assume "fst (checkPassword_try env p opts c w) = Inr r"
  with network(7) network_check_results [of env "fst (digest env p)" "snd (digest env p)"
      "opt_timeout opts" "c1\<lparr>lruCache := lru\<rparr>" w3]
  show ?thesis by auto
qed auto

text \<open>
  Claim C10. For every password, every options value and every state, \<open>checkPassword\<close>
  resolves to a result and does not reject. A result with \<open>checked\<close> false has
  \<open>breached\<close> null. When the outer \<open>try\<close> block throws, the result is
  \<open>{checked: false, breached: null}\<close>, without the offline flag.
\<close>

theorem checkPassword_never_rejects:
  "\<exists>r. fst (checkPassword env p opts c w) = Inr r \<and>
       (\<not> checked r \<longrightarrow> breached r = None) \<and>
       (\<forall>e. fst (checkPassword_try env p opts c w) = Inl e \<longrightarrow>
          r = \<lparr>checked = False, breached = None, count = None, offline = None, cached = None\<rparr>)"
proof (cases "fst (checkPassword_try env p opts c w)")
  case (Inl e)
  then show ?thesis by (simp add: checkPassword_fst error_result_def)
next
  case (Inr r)
  with checkPassword_try_results [OF Inr] show ?thesis
    by (auto simp: checkPassword_fst offline_result_def verdict_def)
qed

theorem checkPassword_never_rejects_witness:
  "fst (checkPassword_try (env_const ReqError NetworkError) ''password'' None new_BreachChecker world0)
     = Inl IDBError \<and>
   fst (checkPassword (env_const ReqError NetworkError) ''password'' None new_BreachChecker world0)
     = Inr \<lparr>checked = False, breached = None, count = None, offline = None, cached = None\<rparr>"
proof -
  have h: "fst (checkPassword_try (env_const ReqError NetworkError) ''password'' None new_BreachChecker world0)
     = Inl IDBError"
    by (simp add: eval_defs)
  from checkPassword_never_rejects [of "env_const ReqError NetworkError" "''password''" None
      new_BreachChecker world0] h
  show ?thesis by auto
qed

section \<open>What leaves the process\<close>

lemma network_check_state:
  "snd (network_check env pfx sfx tmo c w) = snd (network_check env pfx [] tmo c w)"
  by (cases "fetchFromHIBP env pfx tmo c w") (auto simp: network_check_def split: sum.splits)

lemma checkPassword_try_state:
  assumes "fst (digest env p') = fst (digest env p)"
  shows "snd (checkPassword_try env p' opts c w) = snd (checkPassword_try env p opts c w)"
proof -
  obtain pfx sfx where d: "digest env p = (pfx, sfx)" by (cases "digest env p")
  with assms obtain sfx' where d': "digest env p' = (pfx, sfx')" by (cases "digest env p'") auto
  have "snd (checkPassword_try env q opts c w) =
     (case initDB env c w of (c1, w1) \<Rightarrow>
      case access (lruCache c1) pfx of (lru, evicted) \<Rightarrow>
         let c2 = c1\<lparr>lruCache := lru\<rparr>;
             w2 = (case evicted of Some k \<Rightarrow> removeFromDB env k w1 | None \<Rightarrow> w1)
         in case getCacheEntry env pfx w2 of
              (Inl e, w3) \<Rightarrow> (c2, w3)
            | (Inr (Some entry), w3) \<Rightarrow> (c2, w3)
            | (Inr None, w3) \<Rightarrow>
                if \<not> opt_allowNetwork opts then (c2, w3)
                else if \<not> fetch_defined env then (c2, w3)
                else snd (network_check env pfx [] (opt_timeout opts) c2 w3))"
    if dq: "digest env q = (pfx, s)" for q s
  proof (cases rule: checkPassword_try_cases [of env c w q opts])
    case (raised c1 w1 lru ev w2 e w3)
    then show ?thesis using dq by (simp add: Let_def)
  next
    case (hit c1 w1 lru ev w2 entry w3)
    then show ?thesis using dq by (simp add: Let_def)
  next
    case (offline c1 w1 lru ev w2 w3)
    then show ?thesis using dq by (auto simp: Let_def)
  next
    case (network c1 w1 lru ev w2 w3)
    then show ?thesis using dq network_check_state [of env pfx s] by (simp add: Let_def)
  qed
  from this [OF d] this [OF d'] show ?thesis by simp
qed

lemma filter_sublist_le:
  "sublist xs ys \<Longrightarrow> length (filter P xs) \<le> length (filter P ys)"
  by (auto simp: sublist_def)

lemma digest_not_in_request:
  assumes "length (sha1 env p) = 20" and "length pfx \<le> 5"
    and "t \<in> set (request_texts (hibp_request pfx))"
  shows "\<not> sublist (hex_digest env p) t"
proof
  assume s: "sublist (hex_digest env p) t"
  have "filter is_upper_hex (hex_digest env p) = hex_digest env p"
    by (simp add: upper_hex_digest)
  then have "length (filter is_upper_hex (hex_digest env p)) = 40"
    using assms(1) by (simp add: length_hex_digest)
  with filter_sublist_le [OF s, of is_upper_hex] have big: "40 \<le> length (filter is_upper_hex t)"
    by simp
  have u: "filter is_upper_hex HIBP_API_URL = []"
    by (simp add: HIBP_API_URL_def is_upper_hex_def)
  have "length (filter is_upper_hex pfx) \<le> 5"
    using assms(2) length_filter_le [of is_upper_hex pfx] by linarith
  then have "length (filter is_upper_hex (HIBP_API_URL @ pfx)) \<le> 5"
    by (simp add: u)
  moreover have "length (filter is_upper_hex ''User-Agent'') \<le> 5"
    "length (filter is_upper_hex ''password-kit'') \<le> 5"
    by (simp_all add: is_upper_hex_def)
  ultimately have "length (filter is_upper_hex t) \<le> 5"
    using assms(3) by (auto simp: request_texts_def hibp_request_def)
  with big show False by simp
qed

text \<open>
  Claim C1. Every request that a call of \<open>checkPassword\<close> sends is the same one: its
  URL is the fixed endpoint followed by the five-character prefix of the digest, and its
  only header is the fixed \<open>User-Agent\<close>. Nothing else of the password is in it: the
  full digest occurs in none of its texts, and two passwords with the same prefix leave
  the same requests, and the same state altogether, behind. (A password that is a piece
  of the fixed endpoint text, such as \<open>api\<close>, occurs there whatever is checked; what
  the theorem states is that no text of the request depends on the password beyond the
  prefix.)
\<close>

theorem only_prefix_sent:
  "(\<exists>n\<le>MAX_RETRIES. sent (snd (snd (checkPassword env p opts c w))) =
       sent w @ replicate n (hibp_request (fst (digest env p)))) \<and>
   hibp_request (fst (digest env p)) =
     \<lparr>url = HIBP_API_URL @ take 5 (hex_digest env p), headers = [(''User-Agent'', ''password-kit'')]\<rparr> \<and>
   (length (sha1 env p) = 20 \<longrightarrow>
      length (fst (digest env p)) = 5 \<and>
      (\<forall>t\<in>set (request_texts (hibp_request (fst (digest env p)))). \<not> sublist (hex_digest env p) t)) \<and>
   (fst (digest env p') = fst (digest env p) \<longrightarrow>
      snd (checkPassword env p' opts c w) = snd (checkPassword env p opts c w))"
proof (intro conjI impI ballI)
  show "\<exists>n\<le>MAX_RETRIES. sent (snd (snd (checkPassword env p opts c w))) =
       sent w @ replicate n (hibp_request (fst (digest env p)))"
    using checkPassword_try_sent [of env p opts c w] by (simp add: checkPassword_snd)
  show "hibp_request (fst (digest env p)) =
     \<lparr>url = HIBP_API_URL @ take 5 (hex_digest env p), headers = [(''User-Agent'', ''password-kit'')]\<rparr>"
    by (simp add: hibp_request_def digest_def Let_def)
  show "length (fst (digest env p)) = 5" if "length (sha1 env p) = 20"
    using that by (simp add: digest_def Let_def length_hex_digest)
  show "\<not> sublist (hex_digest env p) t"
    if "length (sha1 env p) = 20" "t \<in> set (request_texts (hibp_request (fst (digest env p))))" for t
    using that by (intro digest_not_in_request [of env p "fst (digest env p)"])
      (simp_all add: digest_def Let_def)
  show "snd (checkPassword env p' opts c w) = snd (checkPassword env p opts c w)"
    if "fst (digest env p') = fst (digest env p)"
    using checkPassword_try_state [OF that] by (simp add: checkPassword_snd)
qed

theorem only_prefix_sent_witness:
  "length (sha1 (env_const Healthy (Response 200 (Some []))) ''password'') = 20 \<and>
   fst (digest (env_const Healthy (Response 200 (Some []))) ''secret'')
     = fst (digest (env_const Healthy (Response 200 (Some []))) ''password'') \<and>
   ''https://api.pwnedpasswords.com/range/5BAA6''
     \<in> set (request_texts (hibp_request (fst (digest (env_const Healthy (Response 200 (Some []))) ''password'')))) \<and>
   \<not> sublist (hex_digest (env_const Healthy (Response 200 (Some []))) ''password'')
       ''https://api.pwnedpasswords.com/range/5BAA6'' \<and>
   snd (checkPassword (env_const Healthy (Response 200 (Some []))) ''secret'' None new_BreachChecker world0)
     = snd (checkPassword (env_const Healthy (Response 200 (Some []))) ''password'' None new_BreachChecker world0)"
proof -
  let ?E = "env_const Healthy (Response 200 (Some []))"
  have h1: "length (sha1 ?E ''password'') = 20" by (simp add: sha1_password_def)
  have h2: "fst (digest ?E ''secret'') = fst (digest ?E ''password'')"
    by (simp add: digest_password)
  have h3: "''https://api.pwnedpasswords.com/range/5BAA6''
     \<in> set (request_texts (hibp_request (fst (digest ?E ''password''))))"
    by (simp add: digest_password request_texts_def hibp_request_def HIBP_API_URL_def)
  from only_prefix_sent [of ?E "''password''" None new_BreachChecker world0 "''secret''"] h1 h2 h3
  show ?thesis by blast
qed

section \<open>Cache-only checks\<close>

lemma getCacheEntry_Inl:
  "getCacheEntry env k w = (Inl e, w') \<Longrightarrow> idb_at env (opens w) = ReqError"
  by (auto simp: getCacheEntry_def openDB_def split: idb_status.splits option.splits if_splits)

lemma getCacheEntry_Some:
  "getCacheEntry env k w = (Inr (Some entry), w') \<Longrightarrow>
     store w k = Some entry \<and> \<not> clock w - timestamp entry > CACHE_TTL_MS"
  by (auto simp: getCacheEntry_def openDB_def split: idb_status.splits option.splits if_splits)

lemma initDB_store: "store (snd (initDB env c w)) = store w \<and> clock (snd (initDB env c w)) = clock w"
  by (simp add: initDB_def openDB_def split: idb_status.splits)

lemma removeFromDB_store:
  "store (removeFromDB env k w) = store w \<or> store (removeFromDB env k w) = (store w)(k := None)"
  by (simp add: removeFromDB_def openDB_def split: idb_status.splits)

lemma removeFromDB_clock: "clock (removeFromDB env k w) = clock w"
  by (simp add: removeFromDB_def openDB_def split: idb_status.splits)

lemma no_fresh_before_lookup:
  assumes "initDB env c w = (c1, w1)"
    and "w2 = (case ev of Some k \<Rightarrow> removeFromDB env k w1 | None \<Rightarrow> w1)"
    and "no_fresh_entry w pfx"
  shows "no_fresh_entry w2 pfx"
proof -
  have 1: "store w1 = store w" "clock w1 = clock w" using initDB_store [of env c w] assms(1) by simp_all
  show ?thesis
  proof (cases ev)
    case None
    with assms 1 show ?thesis by (auto simp: no_fresh_entry_def split: option.splits)
  next
    case (Some k)
    with removeFromDB_store [of env k w1] removeFromDB_clock [of env k w1] assms 1 show ?thesis
      by (auto simp: no_fresh_entry_def split: option.splits if_splits)
  qed
qed

lemma durable_lookup_eq:
  assumes "initDB env c w = (c1, w1)" and "access (lruCache c1) (fst (digest env p)) = (lru, ev)"
    and "w2 = (case ev of Some k \<Rightarrow> removeFromDB env k w1 | None \<Rightarrow> w1)"
    and "getCacheEntry env (fst (digest env p)) w2 = (g, w3)"
  shows "durable_lookup env p c w = g"
  using assms by (cases "digest env p") (simp add: durable_lookup_def)

text \<open>
  With \<open>allowNetwork: false\<close> a call sends no request at all, and when its lookup in
  the durable store gives absent it returns
  \<open>{checked: false, breached: null, offline: true}\<close>. The lookup gives absent when the
  store has no record for the prefix that is still within the TTL, a store that cannot be
  opened or whose \<open>db.transaction\<close> throws included, as long as the get request itself
  does not fail.
\<close>

lemma offline_lookup_absent:
  assumes off: "allowNetwork opts = Some False"
  shows "sent (snd (snd (checkPassword env p (Some opts) c w))) = sent w \<and>
         (durable_lookup env p c w = Inr None \<longrightarrow>
            fst (checkPassword env p (Some opts) c w) =
              Inr \<lparr>checked = False, breached = None, count = None, offline = Some True,
                    cached = None\<rparr>) \<and>
         ((\<forall>n. idb_at env n \<noteq> ReqError) \<and> no_fresh_entry w (fst (digest env p)) \<longrightarrow>
            durable_lookup env p c w = Inr None)"
proof -
  have an: "\<not> opt_allowNetwork (Some opts)" using off by (simp add: opt_allowNetwork_def)
  show ?thesis
  proof (cases rule: checkPassword_try_cases [of env c w p "Some opts"])
    case (raised c1 w1 lru ev w2 e w3)
    from getCacheEntry_Inl [OF raised(4)] sent_before_lookup [OF raised(1,3,4)] raised(5)
      durable_lookup_eq [OF raised(1-4)]
    show ?thesis by (auto simp: checkPassword_snd)
  next
    case (hit c1 w1 lru ev w2 entry w3)
    have "\<not> no_fresh_entry w (fst (digest env p))"
    proof
      assume "no_fresh_entry w (fst (digest env p))"
      from no_fresh_before_lookup [OF hit(1,3) this] getCacheEntry_Some [OF hit(4)]
      show False by (simp add: no_fresh_entry_def)
    qed
    with sent_before_lookup [OF hit(1,3,4)] hit(5) durable_lookup_eq [OF hit(1-4)]
    show ?thesis by (simp add: checkPassword_snd)
  next
    case (offline c1 w1 lru ev w2 w3)
    with sent_before_lookup [OF offline(1,3,4)] durable_lookup_eq [OF offline(1-4)]
    show ?thesis
      by (simp add: checkPassword_snd checkPassword_fst offline_result_def)
  next
    case (network c1 w1 lru ev w2 w3)
    with an show ?thesis by simp
  qed
qed

text \<open>
  Claim C5 at a store whose get request fails (\<open>request.onerror\<close>, as for a request
  pending when its transaction is aborted). The store has no record for the prefix
  \<open>5BAA6\<close> of \<open>password\<close> and \<open>allowNetwork\<close> is false. No request is sent, but
  the result is \<open>{checked: false, breached: null}\<close> without the offline flag:
  \<open>getCacheEntry\<close> returns the promise of the request without awaiting it, so the
  rejection passes its \<open>catch\<close>, which returns absent for every other failure of the
  read, and ends in the outer \<open>catch\<close> of \<open>checkPassword\<close>. At the same input, when
  \<open>db.transaction\<close> throws or the open is rejected, the result is
  \<open>{checked: false, breached: null, offline: true}\<close>.
\<close>

theorem failed_get_request_not_offline:
  "offline_opts = Some \<lparr>allowNetwork = Some False, timeout = None\<rparr> \<and>
   fst (digest (env_const ReqError NetworkError) ''password'') = ''5BAA6'' \<and>
   store world0 ''5BAA6'' = None \<and>
   fst (checkPassword (env_const ReqError NetworkError) ''password'' offline_opts
          new_BreachChecker world0)
     = Inr \<lparr>checked = False, breached = None, count = None, offline = None, cached = None\<rparr> \<and>
   sent (snd (snd (checkPassword (env_const ReqError NetworkError) ''password'' offline_opts
                     new_BreachChecker world0))) = [] \<and>
   fst (checkPassword (env_const TxError NetworkError) ''password'' offline_opts
          new_BreachChecker world0)
     = Inr \<lparr>checked = False, breached = None, count = None, offline = Some True, cached = None\<rparr> \<and>
   fst (checkPassword (env_const Unavailable NetworkError) ''password'' offline_opts
          new_BreachChecker world0)
     = Inr \<lparr>checked = False, breached = None, count = None, offline = Some True, cached = None\<rparr>"
  by (simp add: eval_defs error_result_def offline_result_def)

section \<open>A host without IndexedDB\<close>

lemma same_idb_refl [simp]: "same_idb s s"
  by (simp add: same_idb_def)

lemma same_idb_trans: "same_idb s s' \<Longrightarrow> same_idb s' s'' \<Longrightarrow> same_idb s s''"
  by (simp add: same_idb_def)

lemma same_idb_rateLimit: "same_idb (c, w) (rateLimit c w)"
  by (simp add: same_idb_def rateLimit_def Let_def sleep_def)

lemma same_idb_fetch: "same_idb (c, w) (c, snd (fetch env req tmo w))"
  by (simp add: same_idb_def fetch_def)

lemma same_idb_sleep: "same_idb (c, w) (c, sleep ms w)"
  by (simp add: same_idb_def sleep_def)

lemma fetch_loop_frame:
  "same_idb (c, w) (snd (fetch_loop env pfx tmo attempt le c w))"
proof (induction env pfx tmo attempt le c w rule: fetch_loop.induct)
  case (1 env pfx tmo attempt lastError c w)
  show ?case
  proof (cases "attempt < MAX_RETRIES")
    case False
    then show ?thesis by (subst fetch_loop.simps) simp
  next
    case True
    obtain c1 w1 where rl: "rateLimit c w = (c1, w1)" by (cases "rateLimit c w")
    obtain outcome w2 where f: "fetch env (hibp_request pfx) tmo w1 = (outcome, w2)"
      by (cases "fetch env (hibp_request pfx) tmo w1")
    have "same_idb (c, w) (c1, w1)" using same_idb_rateLimit [of c w] rl by simp
    moreover have "same_idb (c1, w1) (c1, w2)"
      using same_idb_fetch [of c1 w1 env "hibp_request pfx" tmo] f by simp
    ultimately have s2: "same_idb (c, w) (c1, w2)" by (rule same_idb_trans)
    have s3: "same_idb (c, w) (c1, sleep ms w2)" for ms
      by (rule same_idb_trans [OF s2 same_idb_sleep])
    show ?thesis
    proof (cases "attempt_of outcome")
      case (Done hs)
      with True rl f s2 show ?thesis by (subst fetch_loop.simps) simp
    next
      case Throttled
      from "1.IH"(1) [OF True rl [symmetric] f [symmetric] Throttled]
      have "same_idb (c, w) (snd (fetch_loop env pfx tmo (Suc attempt) lastError c1 (sleep (backoff attempt) w2)))"
        by (rule same_idb_trans [OF s3])
      with True rl f Throttled show ?thesis by (subst fetch_loop.simps) simp
    next
      case (Thrown e)
      show ?thesis
      proof (cases "e = AbortError")
        case True
        with \<open>attempt < MAX_RETRIES\<close> rl f s2 Thrown show ?thesis
          by (subst fetch_loop.simps) simp
      next
        case False
        let ?w = "if attempt < MAX_RETRIES - 1 then sleep (backoff attempt) w2 else w2"
        have "same_idb (c, w) (c1, ?w)" using s2 s3 by simp
        from same_idb_trans [OF this "1.IH"(2) [OF True rl [symmetric] f [symmetric] Thrown False]]
        show ?thesis
          using True rl f Thrown False by (subst fetch_loop.simps) simp
      qed
    qed
  qed
qed

lemma fetchFromHIBP_frame:
  "dbReady (fst (snd (fetchFromHIBP env pfx tmo c w))) = dbReady c \<and>
   lruCache (fst (snd (fetchFromHIBP env pfx tmo c w))) = lruCache c \<and>
   store (snd (snd (fetchFromHIBP env pfx tmo c w))) = store w \<and>
   opens (snd (snd (fetchFromHIBP env pfx tmo c w))) = opens w \<and>
   open_failures (snd (snd (fetchFromHIBP env pfx tmo c w))) = open_failures w"
  using fetch_loop_frame [of c w env pfx tmo 0 None]
  by (simp add: fetchFromHIBP_def same_idb_def)

lemma unavailable_ops:
  assumes "\<forall>n. idb_at env n = Unavailable"
  shows "openDB env w = (Unavailable, failed_open w)"
    and "initDB env c w = (if dbReady c then (c, w) else (c, failed_open w))"
    and "getCacheEntry env pfx w = (Inr None, failed_open w)"
    and "setCacheEntry env entry w = failed_open w"
    and "removeFromDB env pfx w = failed_open w"
    and "clearCache env c w = (Inr (), c, failed_open w)"
  using assms
  by (simp_all add: openDB_def initDB_def getCacheEntry_def setCacheEntry_def removeFromDB_def
        clearCache_def clearCache_try_def failed_open_def)

lemma failed_open_simps [simp]:
  "store (failed_open w) = store w" "open_failures (failed_open w) = Suc (open_failures w)"
  "sent (failed_open w) = sent w" "clock (failed_open w) = clock w"
  by (simp_all add: failed_open_def)

lemma unavailable_network_check:
  assumes "\<forall>n. idb_at env n = Unavailable"
  shows "dbReady (fst (snd (network_check env pfx sfx tmo c w))) = dbReady c \<and>
         store (snd (snd (network_check env pfx sfx tmo c w))) = store w \<and>
         open_failures w \<le> open_failures (snd (snd (network_check env pfx sfx tmo c w)))"
  using fetchFromHIBP_frame [of env pfx tmo c w]
  by (cases "fetchFromHIBP env pfx tmo c w")
    (auto simp: network_check_def unavailable_ops(4) [OF assms] split: sum.splits)

lemma unavailable_checkPassword:
  assumes un: "\<forall>n. idb_at env n = Unavailable"
  shows "dbReady (fst (snd (checkPassword env p opts c w))) = dbReady c \<and>
         store (snd (snd (checkPassword env p opts c w))) = store w \<and>
         (\<not> dbReady c \<longrightarrow> open_failures w + 2 \<le> open_failures (snd (snd (checkPassword env p opts c w))))"
proof -
  have w2: "store (case ev of Some k \<Rightarrow> removeFromDB env k w1 | None \<Rightarrow> w1) = store w1 \<and>
      open_failures w1 \<le> open_failures (case ev of Some k \<Rightarrow> removeFromDB env k w1 | None \<Rightarrow> w1)"
    for ev w1
    by (cases ev) (simp_all add: unavailable_ops(5) [OF un])
  have i: "dbReady c1 = dbReady c \<and> store w1 = store w \<and>
      (\<not> dbReady c \<longrightarrow> open_failures w1 = Suc (open_failures w))"
    if "initDB env c w = (c1, w1)" for c1 w1
    using that by (auto simp: unavailable_ops(2) [OF un] split: if_splits)
  show ?thesis
  proof (cases rule: checkPassword_try_cases [of env c w p opts])
    case (raised c1 w1 lru ev w2 e w3)
    then show ?thesis by (simp add: unavailable_ops(3) [OF un])
  next
    case (hit c1 w1 lru ev w2 entry w3)
    then show ?thesis by (simp add: unavailable_ops(3) [OF un])
  next
    case (offline c1 w1 lru ev w2 w3)
    from offline(4) have "w3 = failed_open w2" by (simp add: unavailable_ops(3) [OF un])
    with i [OF offline(1)] w2 [where ev = ev and ?w1.0 = w1] offline(3,6) show ?thesis
      by (auto simp: checkPassword_snd)
  next
    case (network c1 w1 lru ev w2 w3)
    from network(4) have "w3 = failed_open w2" by (simp add: unavailable_ops(3) [OF un])
    with i [OF network(1)] w2 [where ev = ev and ?w1.0 = w1] network(3,7)
      unavailable_network_check [OF un, of "fst (digest env p)" "snd (digest env p)"
        "opt_timeout opts" "c1\<lparr>lruCache := lru\<rparr>" w3]
    show ?thesis
      by (auto simp: checkPassword_snd)
  qed
qed

lemma initDB_remembers_success:
  "(dbReady c \<longrightarrow> initDB env c w = (c, w)) \<and>
   (\<not> dbReady c \<and> idb_at env (opens w) \<noteq> Unavailable \<longrightarrow>
      dbReady (fst (initDB env c w)) \<and>
      open_failures (snd (initDB env c w)) = open_failures w)"
  by (simp add: initDB_def openDB_def split: idb_status.splits)

text \<open>
  Claim C8, as the code has it. Only a successful \<open>initDB\<close> is remembered: an open
  that is not rejected sets \<open>dbReady\<close>, and with \<open>dbReady\<close> set \<open>initDB\<close> does not
  open at all. While every open of IndexedDB is rejected, \<open>dbReady\<close> stays as it was,
  \<open>initDB\<close> opens again and fails again on every call with \<open>dbReady\<close> false, and
  each durable-store operation makes a failing open of its own: a \<open>checkPassword\<close>
  adds at least two failed opens. The operations do nothing else and do not raise:
  \<open>getCacheEntry\<close> returns absent, \<open>setCacheEntry\<close>, \<open>removeFromDB\<close> and
  \<open>clearCache\<close> leave the store as it is, and \<open>checkPassword\<close> returns a result.
\<close>

theorem unavailable_store_degrades:
  assumes "\<forall>n. idb_at env n = Unavailable"
  shows "initDB env c w = (if dbReady c then (c, w) else (c, failed_open w)) \<and>
         getCacheEntry env pfx w = (Inr None, failed_open w) \<and>
         setCacheEntry env entry w = failed_open w \<and>
         removeFromDB env pfx w = failed_open w \<and>
         clearCache env c w = (Inr (), c, failed_open w) \<and>
         (\<exists>r. fst (checkPassword env p opts c w) = Inr r) \<and>
         dbReady (fst (snd (checkPassword env p opts c w))) = dbReady c \<and>
         store (snd (snd (checkPassword env p opts c w))) = store w \<and>
         (\<not> dbReady c \<longrightarrow>
            open_failures w + 2 \<le> open_failures (snd (snd (checkPassword env p opts c w)))) \<and>
         (dbReady c' \<longrightarrow> initDB env' c' w' = (c', w')) \<and>
         (\<not> dbReady c' \<and> idb_at env' (opens w') \<noteq> Unavailable \<longrightarrow>
            dbReady (fst (initDB env' c' w')) \<and>
            open_failures (snd (initDB env' c' w')) = open_failures w')"
  using unavailable_ops(2-6) [OF assms] unavailable_checkPassword [OF assms, of p opts c w]
    checkPassword_resolves [of env p opts c w] initDB_remembers_success [of c' env' w']
  by simp

lemma degraded_state_eval:
  "degraded_state =
     (new_BreachChecker\<lparr>lruCache := fst (access (new_LRUCache MAX_CACHE_SIZE) ''5BAA6'')\<rparr>,
      failed_open (failed_open world0))"
  by (simp add: degraded_state_def checkPassword_def checkPassword_try_def digest_password
      unavailable_ops offline_opts_def opt_allowNetwork_def new_BreachChecker_def
      access_def new_LRUCache_def Let_def MAX_CACHE_SIZE_def split: prod.splits)

theorem unavailable_store_degrades_witness:
  "(\<forall>n. idb_at (env_const Unavailable NetworkError) n = Unavailable) \<and>
   \<not> dbReady new_BreachChecker \<and>
   dbReady (fst (snd (checkPassword (env_const Unavailable NetworkError) ''password'' offline_opts
                        new_BreachChecker world0))) = dbReady new_BreachChecker \<and>
   open_failures world0 + 2 \<le>
     open_failures (snd (snd (checkPassword (env_const Unavailable NetworkError) ''password''
                                offline_opts new_BreachChecker world0))) \<and>
   idb_at (env_const Healthy NetworkError) (opens world0) \<noteq> Unavailable \<and>
   dbReady (fst (initDB (env_const Healthy NetworkError) new_BreachChecker world0)) \<and>
   dbReady (new_BreachChecker\<lparr>dbReady := True\<rparr>) \<and>
   initDB (env_const Unavailable NetworkError) (new_BreachChecker\<lparr>dbReady := True\<rparr>) world0
     = (new_BreachChecker\<lparr>dbReady := True\<rparr>, world0)"
proof -
  have h: "\<forall>n. idb_at (env_const Unavailable NetworkError) n = Unavailable" by simp
  have d: "\<not> dbReady new_BreachChecker" by (simp add: new_BreachChecker_def)
  have g: "idb_at (env_const Healthy NetworkError) (opens world0) \<noteq> Unavailable" by simp
  have r: "dbReady (new_BreachChecker\<lparr>dbReady := True\<rparr>)" by simp
  note A = unavailable_store_degrades [OF h, where c = new_BreachChecker and w = world0
      and p = "''password''" and opts = offline_opts and env' = "env_const Healthy NetworkError"
      and c' = new_BreachChecker and w' = world0]
  note B = unavailable_store_degrades [OF h, where c = new_BreachChecker and w = world0
      and p = "''password''" and opts = offline_opts and env' = "env_const Unavailable NetworkError"
      and c' = "new_BreachChecker\<lparr>dbReady := True\<rparr>" and w' = world0]
  from A d have 1: "dbReady (fst (snd (checkPassword (env_const Unavailable NetworkError) ''password'' offline_opts
                        new_BreachChecker world0))) = dbReady new_BreachChecker"
    and 2: "open_failures world0 + 2 \<le>
     open_failures (snd (snd (checkPassword (env_const Unavailable NetworkError) ''password''
                                offline_opts new_BreachChecker world0)))"
    by blast+
  from A d g have 3: "dbReady (fst (initDB (env_const Healthy NetworkError) new_BreachChecker world0))"
    by blast
  from B r have 4: "initDB (env_const Unavailable NetworkError) (new_BreachChecker\<lparr>dbReady := True\<rparr>) world0
     = (new_BreachChecker\<lparr>dbReady := True\<rparr>, world0)"
    by blast
  from h d 1 2 g 3 r 4 show ?thesis by (intro conjI)
qed

text \<open>
  Claim C8 as stated (the unavailable store is detected once and no failed
  initialisation is repeated) fails: after a first check without IndexedDB,
  \<open>dbReady\<close> is false and two opens have failed; the second check fails two more.
\<close>

theorem failed_init_repeated_counterexample:
  "dbReady (fst degraded_state) = False \<and>
   open_failures world0 = 0 \<and>
   open_failures (snd degraded_state) = 2 \<and>
   open_failures (snd (snd (checkPassword (env_const Unavailable NetworkError) ''password''
                              offline_opts (fst degraded_state) (snd degraded_state)))) = 4"
  by (simp add: degraded_state_eval checkPassword_def checkPassword_try_def digest_password
      unavailable_ops offline_opts_def opt_allowNetwork_def new_BreachChecker_def
      access_def new_LRUCache_def Let_def MAX_CACHE_SIZE_def moveToFront_def world0_def failed_open_def)

text \<open>
  Claim C6 at a host without IndexedDB: \<open>clearCache\<close> completes without raising, and
  the LRU cache still holds the prefix it held before. The statement that replaces the
  LRU cache stands after the awaited IndexedDB calls inside the \<open>try\<close> block, so the
  rejected open skips it.
\<close>

theorem clearCache_unavailable_keeps_lru:
  "lru_keys (lruCache (fst degraded_state)) = [''5BAA6''] \<and>
   fst (clearCache (env_const Unavailable NetworkError) (fst degraded_state) (snd degraded_state))
     = Inr () \<and>
   lru_keys (lruCache (fst (snd (clearCache (env_const Unavailable NetworkError)
                                   (fst degraded_state) (snd degraded_state))))) = [''5BAA6'']"
  by (simp add: degraded_state_eval unavailable_ops lru_keys_def
      access_def new_LRUCache_def Let_def MAX_CACHE_SIZE_def new_BreachChecker_def)

text \<open>On a store that works, both caches are emptied; and \<open>clearCache\<close> never raises.\<close>

lemma clearCache_healthy:
  "idb_at env (opens w) = Healthy \<Longrightarrow>
     fst (clearCache env c w) = Inr () \<and>
     lruCache (fst (snd (clearCache env c w))) = new_LRUCache MAX_CACHE_SIZE \<and>
     store (snd (snd (clearCache env c w))) = Map.empty"
  by (simp add: clearCache_def clearCache_try_def openDB_def)

lemma clearCache_never_raises: "fst (clearCache env c w) = Inr ()"
  by (simp add: clearCache_def split: prod.splits)

end
